theory Spec2Isabelle
  imports Main "HOL-Library.Word"
begin

section \<open>Data model of 9cc.c\<close>

text \<open>
  The token kinds of the source (\<^verbatim>\<open>typedef enum { TK_RESERVED, TK_NUM, TK_EOF } TokenKind\<close>).
\<close>

datatype TokenKind = TK_RESERVED | TK_NUM | TK_EOF

text \<open>
  \<^verbatim>\<open>struct Token { TokenKind kind; Token *next; int val; char *str; }\<close>.
  The field \<open>val\<close> is a C \<open>int\<close> (32 bits on the x86-64 target the program emits code for).
  The field \<open>str\<close> always points into \<open>user_input\<close>; it is kept as the byte offset
  \<open>str - user_input\<close>.  The \<open>next\<close> links are the order of a HOL list: a pointer to a token
  is the suffix of the list that starts at this token, and the null pointer is the empty list.
\<close>

record Token =
  kind :: TokenKind
  val :: "32 word"
  str :: nat

text \<open>
  The two globals \<^verbatim>\<open>Token *token\<close> and \<^verbatim>\<open>char *user_input\<close>, and the two output
  streams the program writes to: what has been printed so far.  Both \<open>exit\<close> and the
  return from \<open>main\<close> flush the streams, so what a stream holds when the process ends is
  what the process has written.
\<close>

record state =
  token :: "Token list"
  user_input :: string
  stdout :: string
  stderr :: string

text \<open>
  A C function either returns a value (in a new state), or the process has ended through
  \<^verbatim>\<open>exit(status)\<close>, or it has dereferenced the null pointer (undefined behaviour).
\<close>

datatype 'a outcome = Return 'a state | Exit int state | Fault

section \<open>The C library functions the program calls\<close>

text \<open>Reading \<open>s[i]\<close> of a C string: the terminating NUL sits after the last byte.\<close>

definition char_at :: "string \<Rightarrow> nat \<Rightarrow> char" where
  "char_at s i = (if i < length s then s ! i else CHR 0x00)"

text \<open>What \<open>%s\<close> prints: the bytes before the first NUL.\<close>

definition c_str :: "string \<Rightarrow> string" where
  "c_str s = takeWhile (\<lambda>c. c \<noteq> CHR 0x00) s"

text \<open>
  \<open>isspace\<close> and \<open>isdigit\<close> of \<open>ctype.h\<close> in the C locale: space, tab, line feed,
  vertical tab, form feed and carriage return are white space, \<open>0\<close> to \<open>9\<close> are digits,
  and no byte above 127 is either.
\<close>

definition isspace :: "char \<Rightarrow> bool" where
  "isspace c = (c = CHR 0x20 \<or> c = CHR 0x09 \<or> c = CHR 0x0A \<or> c = CHR 0x0B \<or> c = CHR 0x0C \<or> c = CHR 0x0D)"

definition isdigit :: "char \<Rightarrow> bool" where
  "isdigit c = (48 \<le> (of_char c :: nat) \<and> (of_char c :: nat) \<le> 57)"

text \<open>The value of a run of decimal digits, most significant first.\<close>

definition digit_val :: "char \<Rightarrow> int" where
  "digit_val c = int (of_char c) - 48"

definition decimal :: "string \<Rightarrow> int" where
  "decimal ds = foldl (\<lambda>acc c. acc * 10 + digit_val c) 0 ds"

text \<open>
  \<^verbatim>\<open>strtol(p, &p, 10)\<close>, called where \<open>*p\<close> is a digit, so that neither leading white space
  nor a sign is there to be skipped: it converts the maximal run of digits at \<open>p\<close>, returns
  \<open>LONG_MAX\<close> when the value does not fit a (64-bit) \<open>long\<close>, and stores the position after the
  run.
\<close>

definition LONG_MAX :: int where
  "LONG_MAX = 2 ^ 63 - 1"

definition digit_run :: "string \<Rightarrow> nat \<Rightarrow> string" where
  "digit_run s p = takeWhile isdigit (drop p s)"

definition strtol :: "string \<Rightarrow> nat \<Rightarrow> int \<times> nat" where
  "strtol s p = (min (decimal (digit_run s p)) LONG_MAX, p + length (digit_run s p))"

text \<open>What \<open>%d\<close> prints for an \<open>int\<close>.\<close>

definition digit_char :: "nat \<Rightarrow> char" where
  "digit_char d = char_of (48 + d)"

function show_nat :: "nat \<Rightarrow> string" where
  "show_nat n = (if n < 10 then [digit_char n] else show_nat (n div 10) @ [digit_char (n mod 10)])"
  by pat_completeness auto
termination
  by (relation "measure (\<lambda>n. n)") auto

definition printf_d :: "int \<Rightarrow> string" where
  "printf_d i = (if i < 0 then CHR ''-'' # show_nat (nat (- i)) else show_nat (nat i))"

text \<open>What \<open>%*s\<close> prints: the string, padded with spaces on the left up to the width.\<close>

definition printf_pad :: "nat \<Rightarrow> string \<Rightarrow> string" where
  "printf_pad width s = replicate (width - length s) CHR 0x20 @ s"

definition printf :: "state \<Rightarrow> string \<Rightarrow> state" where
  "printf st s = st\<lparr>stdout := stdout st @ s\<rparr>"

definition fprintf_stderr :: "state \<Rightarrow> string \<Rightarrow> state" where
  "fprintf_stderr st s = st\<lparr>stderr := stderr st @ s\<rparr>"

section \<open>The messages\<close>

text \<open>The string literals of the source are UTF-8; these are their bytes.\<close>

definition msg_not_number :: string where
  "msg_not_number =
     [CHR 0xE6, CHR 0x95, CHR 0xB0, CHR 0xE3, CHR 0x81, CHR 0xA7, CHR 0xE3, CHR 0x81,
      CHR 0xAF, CHR 0xE3, CHR 0x81, CHR 0x82, CHR 0xE3, CHR 0x82, CHR 0x8A, CHR 0xE3,
      CHR 0x81, CHR 0xBE, CHR 0xE3, CHR 0x81, CHR 0x9B, CHR 0xE3, CHR 0x82, CHR 0x93]"

definition msg_cannot_tokenize :: string where
  "msg_cannot_tokenize =
     [CHR 0xE3, CHR 0x83, CHR 0x88, CHR 0xE3, CHR 0x83, CHR 0xBC, CHR 0xE3, CHR 0x82,
      CHR 0xAF, CHR 0xE3, CHR 0x83, CHR 0x8A, CHR 0xE3, CHR 0x82, CHR 0xA4, CHR 0xE3,
      CHR 0x82, CHR 0xBA, CHR 0xE3, CHR 0x81, CHR 0xA7, CHR 0xE3, CHR 0x81, CHR 0x8D,
      CHR 0xE3, CHR 0x81, CHR 0xBE, CHR 0xE3, CHR 0x81, CHR 0x9B, CHR 0xE3, CHR 0x82,
      CHR 0x93]"

text \<open>The format \<^verbatim>\<open>'%c'\<close> followed by the text, with \<open>%c\<close> filled in.\<close>

definition msg_not_char :: "char \<Rightarrow> string" where
  "msg_not_char op =
     [CHR 0x27, op, CHR 0x27,
      CHR 0xE3, CHR 0x81, CHR 0xA7, CHR 0xE3, CHR 0x81, CHR 0xAF, CHR 0xE3, CHR 0x81,
      CHR 0x82, CHR 0xE3, CHR 0x82, CHR 0x8A, CHR 0xE3, CHR 0x81, CHR 0xBE, CHR 0xE3,
      CHR 0x81, CHR 0x9B, CHR 0xE3, CHR 0x82, CHR 0x93]"

text \<open>The format \<^verbatim>\<open>%s: \<close> followed by the text, with \<open>%s\<close> filled in.\<close>

definition msg_argc :: "string \<Rightarrow> string" where
  "msg_argc prog =
     c_str prog @ [CHR 0x3A, CHR 0x20,
      CHR 0xE5, CHR 0xBC, CHR 0x95, CHR 0xE6, CHR 0x95, CHR 0xB0, CHR 0xE3, CHR 0x81,
      CHR 0xAE, CHR 0xE5, CHR 0x80, CHR 0x8B, CHR 0xE6, CHR 0x95, CHR 0xB0, CHR 0xE3,
      CHR 0x81, CHR 0x8C, CHR 0xE6, CHR 0xAD, CHR 0xA3, CHR 0xE3, CHR 0x81, CHR 0x97,
      CHR 0xE3, CHR 0x81, CHR 0x8F, CHR 0xE3, CHR 0x81, CHR 0x82, CHR 0xE3, CHR 0x82,
      CHR 0x8A, CHR 0xE3, CHR 0x81, CHR 0xBE, CHR 0xE3, CHR 0x81, CHR 0x9B, CHR 0xE3,
      CHR 0x82, CHR 0x93]"

section \<open>Diagnostics\<close>

text \<open>
  \<^verbatim>\<open>void error_at(char *loc, char *fmt, ...)\<close>: \<open>loc\<close> is given as the offset
  \<open>loc - user_input\<close> (an argument string is far shorter than \<open>INT_MAX\<close> bytes, so the
  \<open>int\<close> that holds it does not overflow), and the formatted message as the string
  \<open>vfprintf\<close> prints.
  The four \<open>fprintf\<close> calls follow the source one by one; the second one is
  \<^verbatim>\<open>fprintf(stderr, "%*s", pos, " ")\<close>, which pads the one-character string \<^verbatim>\<open>" "\<close>
  to the width \<open>pos\<close>.
\<close>

definition error_at :: "state \<Rightarrow> nat \<Rightarrow> string \<Rightarrow> 'a outcome" where
  "error_at st loc msg =
     (let pos = loc;
          st1 = fprintf_stderr st (c_str (user_input st) @ [CHR 0x0A]);
          st2 = fprintf_stderr st1 (printf_pad pos [CHR 0x20]);
          st3 = fprintf_stderr st2 ''^ '';
          st4 = fprintf_stderr st3 msg;
          st5 = fprintf_stderr st4 [CHR 0x0A]
      in Exit 1 st5)"

text \<open>\<^verbatim>\<open>void error(char *fmt, ...)\<close>.\<close>

definition error :: "state \<Rightarrow> string \<Rightarrow> 'a outcome" where
  "error st msg =
     (let st1 = fprintf_stderr st msg;
          st2 = fprintf_stderr st1 [CHR 0x0A]
      in Exit 1 st2)"

section \<open>The cursor operations\<close>

text \<open>
  \<^verbatim>\<open>bool consume(char op)\<close>.  \<open>token->str[0]\<close> is the byte of the input at the token's
  offset.
\<close>

definition consume :: "char \<Rightarrow> state \<Rightarrow> bool outcome" where
  "consume op st =
     (case token st of
        [] \<Rightarrow> Fault
      | t # next \<Rightarrow>
          if kind t \<noteq> TK_RESERVED \<or> char_at (user_input st) (str t) \<noteq> op
          then Return False st
          else Return True (st\<lparr>token := next\<rparr>))"

text \<open>\<^verbatim>\<open>void expect(char op)\<close>.\<close>

definition expect :: "char \<Rightarrow> state \<Rightarrow> unit outcome" where
  "expect op st =
     (case token st of
        [] \<Rightarrow> Fault
      | t # next \<Rightarrow>
          if kind t \<noteq> TK_RESERVED \<or> char_at (user_input st) (str t) \<noteq> op
          then error_at st (str t) (msg_not_char op)
          else Return () (st\<lparr>token := next\<rparr>))"

text \<open>\<^verbatim>\<open>int expect_number()\<close>.\<close>

definition expect_number :: "state \<Rightarrow> (32 word) outcome" where
  "expect_number st =
     (case token st of
        [] \<Rightarrow> Fault
      | t # next \<Rightarrow>
          if kind t \<noteq> TK_NUM
          then error_at st (str t) msg_not_number
          else Return (val t) (st\<lparr>token := next\<rparr>))"

text \<open>\<^verbatim>\<open>bool at_eof()\<close>.\<close>

definition at_eof :: "state \<Rightarrow> bool outcome" where
  "at_eof st =
     (case token st of
        [] \<Rightarrow> Fault
      | t # next \<Rightarrow> Return (kind t = TK_EOF) st)"

section \<open>The lexer\<close>

text \<open>
  \<^verbatim>\<open>Token *new_token(TokenKind kind, Token *cur, char *str)\<close>: the new token is zeroed by
  \<open>calloc\<close>, gets its kind and position, and is linked behind \<open>cur\<close>, the last token of
  the list built so far.  The list is returned with the new token at its end.
\<close>

definition new_token :: "TokenKind \<Rightarrow> Token list \<Rightarrow> nat \<Rightarrow> Token list" where
  "new_token k cur s = cur @ [\<lparr>kind = k, val = 0, str = s\<rparr>]"

text \<open>\<open>cur->val = v\<close> on the last token of the list.\<close>

definition set_val :: "Token list \<Rightarrow> 32 word \<Rightarrow> Token list" where
  "set_val cur v = (case rev cur of [] \<Rightarrow> [] | t # ts \<Rightarrow> rev ts @ [t\<lparr>val := v\<rparr>])"

text \<open>
  The body of \<^verbatim>\<open>Token *tokenize()\<close> from the \<open>while (*p)\<close> loop on: \<open>p\<close> is the offset of
  the scan pointer in \<open>user_input\<close> and \<open>cur\<close> the list behind the dummy head.  The
  conversion of the \<open>long\<close> that \<open>strtol\<close> returns to the \<open>int\<close> field keeps its low 32
  bits.
\<close>

function tokenize_loop :: "state \<Rightarrow> nat \<Rightarrow> Token list \<Rightarrow> (Token list) outcome" where
  "tokenize_loop st p cur =
     (if char_at (user_input st) p = CHR 0x00
      then Return (new_token TK_EOF cur p) st
      else if isspace (char_at (user_input st) p)
      then tokenize_loop st (p + 1) cur
      else if char_at (user_input st) p = CHR ''+'' \<or> char_at (user_input st) p = CHR ''-''
      then tokenize_loop st (p + 1) (new_token TK_RESERVED cur p)
      else if isdigit (char_at (user_input st) p)
      then tokenize_loop st (snd (strtol (user_input st) p))
             (set_val (new_token TK_NUM cur p) (word_of_int (fst (strtol (user_input st) p))))
      else error_at st p msg_cannot_tokenize)"
  by pat_completeness auto

lemma char_at_nonzero: "char_at s p \<noteq> CHR 0x00 \<Longrightarrow> p < length s"
  by (simp add: char_at_def split: if_splits)

lemma isdigit_nonzero: "isdigit c \<Longrightarrow> c \<noteq> CHR 0x00"
  by (auto simp: isdigit_def)

lemma digit_run_Cons:
  assumes "isdigit (char_at s p)"
  shows "digit_run s p = char_at s p # takeWhile isdigit (drop (Suc p) s)"
proof -
  from assms have "p < length s"
    by (auto dest: isdigit_nonzero intro: char_at_nonzero)
  then have "drop p s = char_at s p # drop (Suc p) s"
    by (simp add: char_at_def Cons_nth_drop_Suc)
  with assms show ?thesis
    by (simp add: digit_run_def)
qed

lemma digit_run_bound: "p \<le> length s \<Longrightarrow> p + length (digit_run s p) \<le> length s"
proof -
  assume "p \<le> length s"
  moreover have "length (digit_run s p) \<le> length (drop p s)"
    unfolding digit_run_def by (rule length_takeWhile_le)
  ultimately show ?thesis by simp
qed

lemma strtol_advances:
  assumes "isdigit (char_at s p)"
  shows "p < snd (strtol s p)" and "snd (strtol s p) \<le> length s"
proof -
  from assms have lt: "p < length s"
    by (auto dest: isdigit_nonzero intro: char_at_nonzero)
  from digit_run_Cons [OF assms] show "p < snd (strtol s p)"
    by (simp add: strtol_def)
  from lt digit_run_bound [of p s] show "snd (strtol s p) \<le> length s"
    by (simp add: strtol_def)
qed

termination tokenize_loop
proof (relation "measure (\<lambda>(st, p, cur). length (user_input st) - p)")
  show "wf (measure (\<lambda>(st, p, cur). length (user_input st) - p))"
    by simp
next
  fix st :: state and p :: nat and cur :: "Token list"
  assume "char_at (user_input st) p \<noteq> CHR 0x00"
  then have "p < length (user_input st)"
    by (rule char_at_nonzero)
  then show "((st, p + 1, cur), (st, p, cur)) \<in> measure (\<lambda>(st, p, cur). length (user_input st) - p)"
    by simp
next
  fix st :: state and p :: nat and cur :: "Token list"
  assume "char_at (user_input st) p \<noteq> CHR 0x00"
  then have "p < length (user_input st)"
    by (rule char_at_nonzero)
  then show "((st, p + 1, new_token TK_RESERVED cur p), (st, p, cur))
      \<in> measure (\<lambda>(st, p, cur). length (user_input st) - p)"
    by simp
next
  fix st :: state and p :: nat and cur :: "Token list"
  assume "isdigit (char_at (user_input st) p)"
  from strtol_advances [OF this]
  show "((st, snd (strtol (user_input st) p),
          set_val (new_token TK_NUM cur p) (word_of_int (fst (strtol (user_input st) p)))),
         (st, p, cur))
      \<in> measure (\<lambda>(st, p, cur). length (user_input st) - p)"
    by simp
qed

text \<open>\<^verbatim>\<open>Token *tokenize()\<close>: the scan starts at \<open>user_input\<close> with the empty list.\<close>

definition tokenize :: "state \<Rightarrow> (Token list) outcome" where
  "tokenize st = tokenize_loop st 0 []"

section \<open>The driver\<close>

text \<open>
  The \<^verbatim>\<open>while (!at_eof())\<close> loop of \<open>main\<close>.  The argument of each \<open>printf\<close> is
  evaluated before the call, so a failing \<open>expect_number\<close> ends the process before the
  line is printed.
\<close>

function main_loop :: "state \<Rightarrow> unit outcome" where
  "main_loop st =
     (case at_eof st of
        Fault \<Rightarrow> Fault
      | Exit c st' \<Rightarrow> Exit c st'
      | Return eof st0 \<Rightarrow>
          if eof then Return () st0
          else
            (case consume CHR ''+'' st0 of
               Fault \<Rightarrow> Fault
             | Exit c st' \<Rightarrow> Exit c st'
             | Return True st1 \<Rightarrow>
                 (case expect_number st1 of
                    Fault \<Rightarrow> Fault
                  | Exit c st' \<Rightarrow> Exit c st'
                  | Return v st2 \<Rightarrow>
                      main_loop (printf st2 (''  add rax, '' @ printf_d (sint v) @ [CHR 0x0A])))
             | Return False st1 \<Rightarrow>
                 (case expect CHR ''-'' st1 of
                    Fault \<Rightarrow> Fault
                  | Exit c st' \<Rightarrow> Exit c st'
                  | Return u st2 \<Rightarrow>
                      (case expect_number st2 of
                         Fault \<Rightarrow> Fault
                       | Exit c st' \<Rightarrow> Exit c st'
                       | Return v st3 \<Rightarrow>
                           main_loop (printf st3 (''  sub rax, '' @ printf_d (sint v) @ [CHR 0x0A]))))))"
  by pat_completeness auto

lemma at_eof_Return: "at_eof st = Return b st' \<Longrightarrow> st' = st \<and> token st \<noteq> []"
  by (auto simp: at_eof_def split: list.splits)

lemma consume_Return:
  "consume op st = Return b st' \<Longrightarrow> length (token st') \<le> length (token st)"
  by (auto simp: consume_def split: list.splits if_splits)

lemma expect_Return:
  "expect op st = Return u st' \<Longrightarrow> length (token st') < length (token st)"
  by (auto simp: expect_def error_at_def Let_def split: list.splits if_splits)

lemma expect_number_Return:
  "expect_number st = Return v st' \<Longrightarrow> length (token st') < length (token st)"
  by (auto simp: expect_number_def error_at_def Let_def split: list.splits if_splits)

lemma token_printf: "token (printf st s) = token st"
  by (simp add: printf_def)

termination main_loop
proof (relation "measure (\<lambda>st. length (token st))")
  show "wf (measure (\<lambda>st. length (token st)))"
    by simp
next
  fix st eof st0 b st1 v st2
  assume "at_eof st = Return eof st0" "consume CHR ''+'' st0 = Return b st1"
    "expect_number st1 = Return v st2"
  then have "length (token st2) < length (token st)"
    using at_eof_Return [of st eof st0] consume_Return [of "CHR ''+''" st0 b st1]
      expect_number_Return [of st1 v st2]
    by simp
  then show "(printf st2 (''  add rax, '' @ printf_d (sint v) @ [CHR 0x0A]), st)
      \<in> measure (\<lambda>st. length (token st))"
    by (simp add: token_printf)
next
  fix st eof st0 b st1 u st2 v st3
  assume "at_eof st = Return eof st0" "consume CHR ''+'' st0 = Return b st1"
    "expect CHR ''-'' st1 = Return u st2" "expect_number st2 = Return v st3"
  then have "length (token st3) < length (token st)"
    using at_eof_Return [of st eof st0] consume_Return [of "CHR ''+''" st0 b st1]
      expect_Return [of "CHR ''-''" st1 u st2] expect_number_Return [of st2 v st3]
    by simp
  then show "(printf st3 (''  sub rax, '' @ printf_d (sint v) @ [CHR 0x0A]), st)
      \<in> measure (\<lambda>st. length (token st))"
    by (simp add: token_printf)
qed

text \<open>
  \<^verbatim>\<open>int main(int argc, char **argv)\<close>: \<open>argc\<close> is the length of \<open>argv\<close>.  The globals
  start zeroed and the streams empty.  With no argument at all \<open>argv[0]\<close> is the null
  pointer, which \<open>%s\<close> must not be given.
\<close>

definition main :: "string list \<Rightarrow> int outcome" where
  "main argv =
     (let st = \<lparr>token = [], user_input = [], stdout = [], stderr = []\<rparr> in
      if length argv \<noteq> 2
      then (case argv of [] \<Rightarrow> Fault | a0 # rest \<Rightarrow> error st (msg_argc a0))
      else
        (let st = st\<lparr>user_input := argv ! 1\<rparr> in
         case tokenize st of
           Fault \<Rightarrow> Fault
         | Exit c st' \<Rightarrow> Exit c st'
         | Return toks st \<Rightarrow>
             (let st = st\<lparr>token := toks\<rparr>;
                  st = printf st (''.intel_syntax noprefix'' @ [CHR 0x0A]);
                  st = printf st (''.globl main'' @ [CHR 0x0A]);
                  st = printf st (''main:'' @ [CHR 0x0A])
              in case expect_number st of
                   Fault \<Rightarrow> Fault
                 | Exit c st' \<Rightarrow> Exit c st'
                 | Return v st \<Rightarrow>
                     (case main_loop (printf st (''  mov rax, '' @ printf_d (sint v) @ [CHR 0x0A])) of
                        Fault \<Rightarrow> Fault
                      | Exit c st' \<Rightarrow> Exit c st'
                      | Return u st \<Rightarrow> Return 0 (printf st (''  ret'' @ [CHR 0x0A]))))))"

section \<open>The emitted assembly and the machine that runs it\<close>

text \<open>
  The instruction lines the program can print, each with the 32-bit immediate it was
  printed from, and the text of a line.
\<close>

datatype instr = Mov_rax "32 word" | Add_rax "32 word" | Sub_rax "32 word" | Ret

fun asm_line :: "instr \<Rightarrow> string" where
  "asm_line (Mov_rax i) = ''  mov rax, '' @ printf_d (sint i) @ [CHR 0x0A]"
| "asm_line (Add_rax i) = ''  add rax, '' @ printf_d (sint i) @ [CHR 0x0A]"
| "asm_line (Sub_rax i) = ''  sub rax, '' @ printf_d (sint i) @ [CHR 0x0A]"
| "asm_line Ret = ''  ret'' @ [CHR 0x0A]"

definition prologue :: string where
  "prologue = ''.intel_syntax noprefix'' @ [CHR 0x0A] @ ''.globl main'' @ [CHR 0x0A] @ ''main:'' @ [CHR 0x0A]"

definition asm_text :: "instr list \<Rightarrow> string" where
  "asm_text prog = prologue @ concat (map asm_line prog)"

text \<open>
  The x86-64 meaning of these instructions on the 64-bit register \<open>rax\<close>: the 32-bit
  immediate is sign-extended to 64 bits, \<open>add\<close> and \<open>sub\<close> wrap around, and \<open>ret\<close>
  leaves \<open>main\<close> with \<open>rax\<close> as its result.  Running off the end of the listing gives
  no result.
\<close>

fun exec :: "instr list \<Rightarrow> 64 word \<Rightarrow> (64 word) option" where
  "exec [] rax = None"
| "exec (Mov_rax i # prog) rax = exec prog (scast i)"
| "exec (Add_rax i # prog) rax = exec prog (rax + scast i)"
| "exec (Sub_rax i # prog) rax = exec prog (rax - scast i)"
| "exec (Ret # prog) rax = Some rax"

section \<open>Vocabulary of the properties\<close>

text \<open>
  The definitions of this section are not part of the program: they are what the properties
  below are stated with.

  The end offset of the input: the offset of its terminating NUL.
\<close>

definition strlen :: "string \<Rightarrow> nat" where
  "strlen s = length (c_str s)"

text \<open>The bytes that the loop of the lexer accepts: white space, an operator, a digit.\<close>

definition token_char :: "char \<Rightarrow> bool" where
  "token_char c = (isspace c \<or> c = CHR ''+'' \<or> c = CHR ''-'' \<or> isdigit c)"

text \<open>
  The number of input bytes the lexer moves over for a token: one for an operator
  (\<open>p++\<close>), the run of digits \<open>strtol\<close> converts for a number, none for the end marker.
\<close>

definition tok_len :: "string \<Rightarrow> Token \<Rightarrow> nat" where
  "tok_len s t =
     (case kind t of
        TK_RESERVED \<Rightarrow> 1
      | TK_NUM \<Rightarrow> length (digit_run s (str t))
      | TK_EOF \<Rightarrow> 0)"

text \<open>
  What holds of the list built so far when the scan pointer is at \<open>p\<close>: no token is the
  end marker, every token covers at least one byte and ends at or before \<open>p\<close>, an
  operator token sits on a \<open>+\<close> or \<open>-\<close> and has the zero value \<open>calloc\<close> gave it, and
  each token ends before any later one starts.
\<close>

definition scanned :: "string \<Rightarrow> nat \<Rightarrow> Token list \<Rightarrow> bool" where
  "scanned s p cur =
     (p \<le> strlen s \<and>
      (\<forall>t\<in>set cur. kind t \<noteq> TK_EOF \<and> 0 < tok_len s t \<and> str t + tok_len s t \<le> p \<and>
         (kind t = TK_RESERVED \<longrightarrow>
            (char_at s (str t) = CHR ''+'' \<or> char_at s (str t) = CHR ''-'') \<and> val t = 0)) \<and>
      sorted_wrt (\<lambda>a b. str a + tok_len s a \<le> str b) cur)"


text \<open>An outcome of the lexer with more tokens put in front of its list.\<close>

definition with_front :: "Token list \<Rightarrow> (Token list) outcome \<Rightarrow> (Token list) outcome" where
  "with_front front r =
     (case r of
        Return rest st' \<Rightarrow> Return (front @ rest) st'
      | Exit c st' \<Rightarrow> Exit c st'
      | Fault \<Rightarrow> Fault)"

text \<open>
  Expressions as text: optional white space, a literal, then any number of items, each an
  operator and a literal with optional white space before each of them, then optional
  white space.  A literal is a non-empty run of digits whose value fits the \<open>int\<close> type.
\<close>

type_synonym item = "string \<times> char \<times> string \<times> string"

definition blank :: "string \<Rightarrow> bool" where
  "blank ws = (\<forall>c\<in>set ws. isspace c)"

definition literal :: "string \<Rightarrow> bool" where
  "literal ds = (ds \<noteq> [] \<and> (\<forall>c\<in>set ds. isdigit c) \<and> decimal ds < 2 ^ 31)"

fun item_ok :: "item \<Rightarrow> bool" where
  "item_ok (w1, op, w2, ds) = (blank w1 \<and> (op = CHR ''+'' \<or> op = CHR ''-'') \<and> blank w2 \<and> literal ds)"

fun item_text :: "item \<Rightarrow> string" where
  "item_text (w1, op, w2, ds) = w1 @ [op] @ w2 @ ds"

definition expr_text :: "string \<Rightarrow> string \<Rightarrow> item list \<Rightarrow> string \<Rightarrow> string" where
  "expr_text w0 d0 items wN = w0 @ d0 @ concat (map item_text items) @ wN"

text \<open>The value of the expression, taken from left to right.\<close>

fun evaluate :: "int \<Rightarrow> item list \<Rightarrow> int" where
  "evaluate acc [] = acc"
| "evaluate acc ((w1, op, w2, ds) # items) =
     evaluate (if op = CHR ''+'' then acc + decimal ds else acc - decimal ds) items"

text \<open>The instructions expected for it.\<close>

fun item_instr :: "item \<Rightarrow> instr" where
  "item_instr (w1, op, w2, ds) =
     (if op = CHR ''+'' then Add_rax (word_of_int (decimal ds)) else Sub_rax (word_of_int (decimal ds)))"

definition expr_code :: "string \<Rightarrow> item list \<Rightarrow> instr list" where
  "expr_code d0 items = Mov_rax (word_of_int (decimal d0)) # map item_instr items @ [Ret]"

text \<open>The tokens of the items, when the first item starts at offset \<open>p\<close>.\<close>

fun item_toks :: "nat \<Rightarrow> item list \<Rightarrow> Token list" where
  "item_toks p [] = []"
| "item_toks p ((w1, op, w2, ds) # items) =
     \<lparr>kind = TK_RESERVED, val = 0, str = p + length w1\<rparr> #
     \<lparr>kind = TK_NUM, val = word_of_int (decimal ds), str = p + length w1 + 1 + length w2\<rparr> #
     item_toks (p + length w1 + 1 + length w2 + length ds) items"

text \<open>
  An operator token followed by a number token, and the instruction the loop of \<open>main\<close>
  prints for the two.
\<close>

definition op_pair :: "string \<Rightarrow> Token \<times> Token \<Rightarrow> bool" where
  "op_pair s = (\<lambda>(a, b). kind a = TK_RESERVED \<and>
                  (char_at s (str a) = CHR ''+'' \<or> char_at s (str a) = CHR ''-'') \<and>
                  kind b = TK_NUM)"

definition pair_instr :: "string \<Rightarrow> Token \<times> Token \<Rightarrow> instr" where
  "pair_instr s = (\<lambda>(a, b). if char_at s (str a) = CHR ''+'' then Add_rax (val b) else Sub_rax (val b))"

definition pair_tokens :: "(Token \<times> Token) list \<Rightarrow> Token list" where
  "pair_tokens pairs = concat (map (\<lambda>(a, b). [a, b]) pairs)"

section \<open>The cursor operations: \<open>consume\<close>\<close>

text \<open>
  Claim C7.  Whatever the state and the argument character, with the cursor on a token:
  \<open>consume\<close> returns false and leaves the whole state (cursor, input, both streams)
  as it was if the current token is not a \<open>TK_RESERVED\<close> token whose character is the
  argument; otherwise it returns true and the only change of the state is that the cursor
  has moved to the next token.
\<close>

theorem consume_frame:
  "token st = t # next \<Longrightarrow>
     consume op st =
       (if kind t = TK_RESERVED \<and> char_at (user_input st) (str t) = op
        then Return True (st\<lparr>token := next\<rparr>)
        else Return False st)"
  by (simp add: consume_def)

theorem consume_frame_witness:
  "consume CHR ''+''
      \<lparr>token = [\<lparr>kind = TK_RESERVED, val = 0, str = 1\<rparr>, \<lparr>kind = TK_NUM, val = 2, str = 2\<rparr>,
                 \<lparr>kind = TK_EOF, val = 0, str = 3\<rparr>],
       user_input = ''1+2'', stdout = ''x'', stderr = ''y''\<rparr>
    = Return True
      \<lparr>token = [\<lparr>kind = TK_NUM, val = 2, str = 2\<rparr>, \<lparr>kind = TK_EOF, val = 0, str = 3\<rparr>],
       user_input = ''1+2'', stdout = ''x'', stderr = ''y''\<rparr>
   \<and> consume CHR ''-''
      \<lparr>token = [\<lparr>kind = TK_RESERVED, val = 0, str = 1\<rparr>, \<lparr>kind = TK_NUM, val = 2, str = 2\<rparr>,
                 \<lparr>kind = TK_EOF, val = 0, str = 3\<rparr>],
       user_input = ''1+2'', stdout = ''x'', stderr = ''y''\<rparr>
    = Return False
      \<lparr>token = [\<lparr>kind = TK_RESERVED, val = 0, str = 1\<rparr>, \<lparr>kind = TK_NUM, val = 2, str = 2\<rparr>,
                 \<lparr>kind = TK_EOF, val = 0, str = 3\<rparr>],
       user_input = ''1+2'', stdout = ''x'', stderr = ''y''\<rparr>"
  using
    consume_frame [of "\<lparr>token = [\<lparr>kind = TK_RESERVED, val = 0, str = 1\<rparr>, \<lparr>kind = TK_NUM, val = 2, str = 2\<rparr>,
                 \<lparr>kind = TK_EOF, val = 0, str = 3\<rparr>],
       user_input = ''1+2'', stdout = ''x'', stderr = ''y''\<rparr>"
      "\<lparr>kind = TK_RESERVED, val = 0, str = 1\<rparr>"
      "[\<lparr>kind = TK_NUM, val = 2, str = 2\<rparr>, \<lparr>kind = TK_EOF, val = 0, str = 3\<rparr>]" "CHR ''+''"]
    consume_frame [of "\<lparr>token = [\<lparr>kind = TK_RESERVED, val = 0, str = 1\<rparr>, \<lparr>kind = TK_NUM, val = 2, str = 2\<rparr>,
                 \<lparr>kind = TK_EOF, val = 0, str = 3\<rparr>],
       user_input = ''1+2'', stdout = ''x'', stderr = ''y''\<rparr>"
      "\<lparr>kind = TK_RESERVED, val = 0, str = 1\<rparr>"
      "[\<lparr>kind = TK_NUM, val = 2, str = 2\<rparr>, \<lparr>kind = TK_EOF, val = 0, str = 3\<rparr>]" "CHR ''-''"]
  by (simp add: char_at_def)

section \<open>One step of the lexer\<close>

declare tokenize_loop.simps [simp del]
declare main_loop.simps [simp del]
declare show_nat.simps [simp del]

lemma isspace_facts:
  "isspace c \<Longrightarrow> c \<noteq> CHR 0x00 \<and> c \<noteq> CHR ''+'' \<and> c \<noteq> CHR ''-'' \<and> \<not> isdigit c"
  by (auto simp: isspace_def isdigit_def)

lemma isdigit_facts:
  "isdigit c \<Longrightarrow> c \<noteq> CHR 0x00 \<and> c \<noteq> CHR ''+'' \<and> c \<noteq> CHR ''-'' \<and> \<not> isspace c"
  by (auto simp: isspace_def isdigit_def)

lemma tokenize_loop_end:
  "char_at (user_input st) p = CHR 0x00 \<Longrightarrow>
     tokenize_loop st p cur = Return (cur @ [\<lparr>kind = TK_EOF, val = 0, str = p\<rparr>]) st"
  by (simp add: tokenize_loop.simps [of st p cur] new_token_def)

lemma tokenize_loop_space:
  "isspace (char_at (user_input st) p) \<Longrightarrow> tokenize_loop st p cur = tokenize_loop st (Suc p) cur"
  using isspace_facts [of "char_at (user_input st) p"]
  by (simp add: tokenize_loop.simps [of st p cur])

lemma tokenize_loop_op:
  "char_at (user_input st) p = CHR ''+'' \<or> char_at (user_input st) p = CHR ''-'' \<Longrightarrow>
     tokenize_loop st p cur =
       tokenize_loop st (Suc p) (cur @ [\<lparr>kind = TK_RESERVED, val = 0, str = p\<rparr>])"
  by (auto simp: tokenize_loop.simps [of st p cur] new_token_def isspace_def)

lemma tokenize_loop_digit:
  "isdigit (char_at (user_input st) p) \<Longrightarrow>
     tokenize_loop st p cur =
       tokenize_loop st (p + length (digit_run (user_input st) p))
         (cur @ [\<lparr>kind = TK_NUM,
                  val = word_of_int (min (decimal (digit_run (user_input st) p)) LONG_MAX),
                  str = p\<rparr>])"
  using isdigit_facts [of "char_at (user_input st) p"]
  by (simp add: tokenize_loop.simps [of st p cur] new_token_def set_val_def strtol_def)

lemma tokenize_loop_bad:
  "char_at (user_input st) p \<noteq> CHR 0x00 \<Longrightarrow> \<not> isspace (char_at (user_input st) p) \<Longrightarrow>
   char_at (user_input st) p \<noteq> CHR ''+'' \<Longrightarrow> char_at (user_input st) p \<noteq> CHR ''-'' \<Longrightarrow>
   \<not> isdigit (char_at (user_input st) p) \<Longrightarrow>
     tokenize_loop st p cur = error_at st p msg_cannot_tokenize"
  by (simp add: tokenize_loop.simps [of st p cur])

section \<open>The end of the C string and runs of digits\<close>

lemma char_at_strlen: "char_at s (strlen s) = CHR 0x00"
proof (cases "strlen s < length s")
  case True
  then have "\<not> (s ! length (takeWhile (\<lambda>c. c \<noteq> CHR 0x00) s) \<noteq> CHR 0x00)"
    unfolding strlen_def c_str_def by (rule nth_length_takeWhile)
  with True show ?thesis
    by (simp add: char_at_def strlen_def c_str_def)
next
  case False
  then show ?thesis by (simp add: char_at_def)
qed

lemma char_at_before_strlen:
  assumes "i < strlen s"
  shows "char_at s i = c_str s ! i" and "char_at s i \<noteq> CHR 0x00"
proof -
  from assms have "c_str s ! i = s ! i"
    unfolding strlen_def c_str_def by (rule takeWhile_nth)
  moreover have "strlen s \<le> length s"
    unfolding strlen_def c_str_def by (rule length_takeWhile_le)
  ultimately show "char_at s i = c_str s ! i"
    using assms by (simp add: char_at_def)
  from assms have "c_str s ! i \<in> set (takeWhile (\<lambda>c. c \<noteq> CHR 0x00) s)"
    unfolding strlen_def c_str_def by simp
  then have "c_str s ! i \<noteq> CHR 0x00"
    by (auto dest: set_takeWhileD)
  with \<open>char_at s i = c_str s ! i\<close> show "char_at s i \<noteq> CHR 0x00" by simp
qed

lemma strlen_le: "strlen s \<le> length s"
  unfolding strlen_def c_str_def by (rule length_takeWhile_le)

lemma lt_strlen: "p \<le> strlen s \<Longrightarrow> char_at s p \<noteq> CHR 0x00 \<Longrightarrow> p < strlen s"
  using char_at_strlen [of s] by (cases "p = strlen s") auto

lemma digit_run_nth:
  assumes "k < length (digit_run s p)"
  shows "isdigit (char_at s (p + k))"
proof -
  have le: "length (digit_run s p) \<le> length (drop p s)"
    unfolding digit_run_def by (rule length_takeWhile_le)
  from assms have "digit_run s p ! k = drop p s ! k"
    unfolding digit_run_def by (rule takeWhile_nth)
  moreover from assms le have "p + k < length s" by simp
  ultimately have "digit_run s p ! k = char_at s (p + k)"
    by (simp add: char_at_def)
  moreover from assms have "digit_run s p ! k \<in> set (takeWhile isdigit (drop p s))"
    unfolding digit_run_def by simp
  then have "isdigit (digit_run s p ! k)"
    by (auto dest: set_takeWhileD)
  ultimately show ?thesis by simp
qed

lemma digit_run_stop: "\<not> isdigit (char_at s (p + length (digit_run s p)))"
proof (cases "p + length (digit_run s p) < length s")
  case True
  then have "length (takeWhile isdigit (drop p s)) < length (drop p s)"
    by (simp add: digit_run_def)
  then have "\<not> isdigit (drop p s ! length (takeWhile isdigit (drop p s)))"
    by (rule nth_length_takeWhile)
  with True show ?thesis
    by (simp add: char_at_def digit_run_def)
next
  case False
  then show ?thesis by (simp add: char_at_def isdigit_def)
qed

lemma digit_run_strlen:
  assumes "p \<le> strlen s"
  shows "p + length (digit_run s p) \<le> strlen s"
proof (rule ccontr)
  assume "\<not> p + length (digit_run s p) \<le> strlen s"
  with assms have "strlen s - p < length (digit_run s p)" by simp
  then have "isdigit (char_at s (p + (strlen s - p)))"
    by (rule digit_run_nth)
  with assms show False
    by (simp add: char_at_strlen isdigit_def)
qed

lemma digit_run_pos: "isdigit (char_at s p) \<Longrightarrow> 0 < length (digit_run s p)"
  by (simp add: digit_run_Cons)

text \<open>Induction along the scan, one case for each branch of the loop body.\<close>

lemma tokenize_loop_scan_induct [consumes 0, case_names eof space op digit bad]:
  fixes st :: state
  assumes eof: "\<And>p cur. char_at (user_input st) p = CHR 0x00 \<Longrightarrow> P p cur"
    and space: "\<And>p cur. isspace (char_at (user_input st) p) \<Longrightarrow> P (Suc p) cur \<Longrightarrow> P p cur"
    and op: "\<And>p cur. char_at (user_input st) p = CHR ''+'' \<or> char_at (user_input st) p = CHR ''-'' \<Longrightarrow>
               P (Suc p) (cur @ [\<lparr>kind = TK_RESERVED, val = 0, str = p\<rparr>]) \<Longrightarrow> P p cur"
    and digit: "\<And>p cur. isdigit (char_at (user_input st) p) \<Longrightarrow>
               P (p + length (digit_run (user_input st) p))
                 (cur @ [\<lparr>kind = TK_NUM,
                          val = word_of_int (min (decimal (digit_run (user_input st) p)) LONG_MAX),
                          str = p\<rparr>]) \<Longrightarrow> P p cur"
    and bad: "\<And>p cur. char_at (user_input st) p \<noteq> CHR 0x00 \<Longrightarrow>
               \<not> isspace (char_at (user_input st) p) \<Longrightarrow>
               char_at (user_input st) p \<noteq> CHR ''+'' \<Longrightarrow> char_at (user_input st) p \<noteq> CHR ''-'' \<Longrightarrow>
               \<not> isdigit (char_at (user_input st) p) \<Longrightarrow> P p cur"
  shows "P p cur"
  using assms
proof (induction st p cur rule: tokenize_loop.induct)
  case (1 st p cur)
  let ?c = "char_at (user_input st) p"
  note rules = "1.prems"
  consider (e) "?c = CHR 0x00" | (s) "isspace ?c" | (o) "?c = CHR ''+'' \<or> ?c = CHR ''-''"
    | (d) "isdigit ?c"
    | (b) "?c \<noteq> CHR 0x00" "\<not> isspace ?c" "?c \<noteq> CHR ''+''" "?c \<noteq> CHR ''-''" "\<not> isdigit ?c"
    by blast
  then show ?case
  proof cases
    case e
    then show ?thesis by (rule rules(1))
  next
    case s
    from s isspace_facts [of ?c] have c: "?c \<noteq> CHR 0x00" by simp
    have "P (p + 1) cur"
      by (rule "1.IH"(1) [OF c s rules])
    then have "P (Suc p) cur" by simp
    with s show ?thesis by (rule rules(2))
  next
    case o
    then have c: "?c \<noteq> CHR 0x00" "\<not> isspace ?c" by (auto simp: isspace_def)
    have "P (p + 1) (new_token TK_RESERVED cur p)"
      by (rule "1.IH"(2) [OF c o rules])
    then have "P (Suc p) (cur @ [\<lparr>kind = TK_RESERVED, val = 0, str = p\<rparr>])"
      by (simp add: new_token_def)
    with o show ?thesis by (rule rules(3))
  next
    case d
    with isdigit_facts [of ?c] have c: "?c \<noteq> CHR 0x00" "\<not> isspace ?c"
      "\<not> (?c = CHR ''+'' \<or> ?c = CHR ''-'')" by auto
    have "P (snd (strtol (user_input st) p))
            (set_val (new_token TK_NUM cur p) (word_of_int (fst (strtol (user_input st) p))))"
      by (rule "1.IH"(3) [OF c d rules])
    then have "P (p + length (digit_run (user_input st) p))
                 (cur @ [\<lparr>kind = TK_NUM,
                          val = word_of_int (min (decimal (digit_run (user_input st) p)) LONG_MAX),
                          str = p\<rparr>])"
      by (simp add: new_token_def set_val_def strtol_def)
    with d show ?thesis by (rule rules(4))
  next
    case b
    then show ?thesis by (rule rules(5))
  qed
qed

text \<open>The loop never changes the state, only ever extends the list, and does not fault.\<close>

lemma tokenize_loop_Return:
  "tokenize_loop st p cur = Return ts st' \<Longrightarrow> st' = st \<and> (\<exists>rest. ts = cur @ rest)"
proof (induction p cur rule: tokenize_loop_scan_induct [where st = st])
  case (eof p cur)
  then show ?case by (auto simp: tokenize_loop_end)
next
  case (space p cur)
  then show ?case by (simp add: tokenize_loop_space)
next
  case (op p cur)
  then show ?case by (auto simp: tokenize_loop_op)
next
  case (digit p cur)
  then show ?case by (auto simp: tokenize_loop_digit)
next
  case (bad p cur)
  then show ?case by (simp add: tokenize_loop_bad error_at_def Let_def)
qed

section \<open>Outcomes of the lexer\<close>

lemma tokenize_loop_Exit:
  "tokenize_loop st p cur = Exit c st' \<Longrightarrow>
     \<exists>q. p \<le> q \<and> char_at (user_input st) q \<noteq> CHR 0x00 \<and> \<not> token_char (char_at (user_input st) q) \<and>
         Exit c st' = (error_at st q msg_cannot_tokenize :: (Token list) outcome)"
proof (induction p cur rule: tokenize_loop_scan_induct [where st = st])
  case (eof p cur)
  then show ?case by (simp add: tokenize_loop_end)
next
  case (space p cur)
  then have "\<exists>q. Suc p \<le> q \<and> char_at (user_input st) q \<noteq> CHR 0x00 \<and> \<not> token_char (char_at (user_input st) q) \<and>
         Exit c st' = (error_at st q msg_cannot_tokenize :: (Token list) outcome)"
    by (simp add: tokenize_loop_space)
  then show ?case by (auto intro: Suc_leD)
next
  case (op p cur)
  then have "\<exists>q. Suc p \<le> q \<and> char_at (user_input st) q \<noteq> CHR 0x00 \<and> \<not> token_char (char_at (user_input st) q) \<and>
         Exit c st' = (error_at st q msg_cannot_tokenize :: (Token list) outcome)"
    by (simp add: tokenize_loop_op)
  then show ?case by (auto intro: Suc_leD)
next
  case (digit p cur)
  then have "\<exists>q. p + length (digit_run (user_input st) p) \<le> q \<and> char_at (user_input st) q \<noteq> CHR 0x00 \<and> \<not> token_char (char_at (user_input st) q) \<and>
         Exit c st' = (error_at st q msg_cannot_tokenize :: (Token list) outcome)"
    by (simp add: tokenize_loop_digit)
  then obtain q where "p + length (digit_run (user_input st) p) \<le> q"
     "char_at (user_input st) q \<noteq> CHR 0x00 \<and> \<not> token_char (char_at (user_input st) q) \<and>
         Exit c st' = (error_at st q msg_cannot_tokenize :: (Token list) outcome)"
    by blast
  moreover then have "p \<le> q" by simp
  ultimately show ?case by blast
next
  case (bad p cur)
  then have "Exit c st' = (error_at st p msg_cannot_tokenize :: (Token list) outcome)"
    by (simp add: tokenize_loop_bad)
  with bad show ?case by (auto simp: token_char_def)
qed

lemma tokenize_loop_not_Fault: "tokenize_loop st p cur \<noteq> Fault"
proof (induction p cur rule: tokenize_loop_scan_induct [where st = st])
  case (eof p cur)
  then show ?case by (simp add: tokenize_loop_end)
next
  case (space p cur)
  then show ?case by (simp add: tokenize_loop_space)
next
  case (op p cur)
  then show ?case by (simp add: tokenize_loop_op)
next
  case (digit p cur)
  then show ?case by (simp add: tokenize_loop_digit)
next
  case (bad p cur)
  then show ?case by (simp add: tokenize_loop_bad error_at_def Let_def)
qed


section \<open>The token sequence\<close>

lemma eq_strlen: "p \<le> strlen s \<Longrightarrow> char_at s p = CHR 0x00 \<Longrightarrow> p = strlen s"
  using char_at_before_strlen(2) [of p s] by (cases "p < strlen s") auto

lemma scanned_skip: "scanned s p cur \<Longrightarrow> p \<le> q \<Longrightarrow> q \<le> strlen s \<Longrightarrow> scanned s q cur"
  by (fastforce simp: scanned_def)

lemma scanned_snoc:
  assumes "scanned s p cur" and "kind t \<noteq> TK_EOF" and "0 < tok_len s t" and "str t = p"
    and "p + tok_len s t \<le> strlen s"
    and "kind t = TK_RESERVED \<longrightarrow>
            (char_at s (str t) = CHR ''+'' \<or> char_at s (str t) = CHR ''-'') \<and> val t = 0"
  shows "scanned s (p + tok_len s t) (cur @ [t])"
  using assms by (fastforce simp: scanned_def sorted_wrt_append)

lemma tokenize_loop_scanned:
  "scanned (user_input st) p cur \<Longrightarrow> tokenize_loop st p cur = Return ts st' \<Longrightarrow>
     \<exists>front. ts = front @ [\<lparr>kind = TK_EOF, val = 0, str = strlen (user_input st)\<rparr>] \<and>
       scanned (user_input st) (strlen (user_input st)) front"
proof (induction p cur rule: tokenize_loop_scan_induct [where st = st])
  case (eof p cur)
  from eof.prems(1) eof.hyps have "p = strlen (user_input st)"
    by (rule_tac eq_strlen) (simp_all add: scanned_def)
  with eof show ?case by (auto simp: tokenize_loop_end)
next
  case (space p cur)
  from space.prems(1) space.hyps isspace_facts have "p < strlen (user_input st)"
    by (rule_tac lt_strlen) (auto simp: scanned_def)
  with space.prems(1) have "scanned (user_input st) (Suc p) cur"
    by (auto intro: scanned_skip [of _ p])
  with space show ?case by (simp add: tokenize_loop_space)
next
  case (op p cur)
  let ?t = "\<lparr>kind = TK_RESERVED, val = 0, str = p\<rparr>"
  from op.prems(1) op.hyps have "p < strlen (user_input st)"
    by (rule_tac lt_strlen) (auto simp: scanned_def)
  with op.prems(1) op.hyps have "scanned (user_input st) (p + tok_len (user_input st) ?t) (cur @ [?t])"
    by (rule_tac scanned_snoc) (simp_all add: tok_len_def)
  then have "scanned (user_input st) (Suc p) (cur @ [?t])"
    by (simp add: tok_len_def)
  with op show ?case by (simp add: tokenize_loop_op)
next
  case (digit p cur)
  let ?t = "\<lparr>kind = TK_NUM,
             val = word_of_int (min (decimal (digit_run (user_input st) p)) LONG_MAX), str = p\<rparr>"
  from digit.prems(1) have "p + length (digit_run (user_input st) p) \<le> strlen (user_input st)"
    by (rule_tac digit_run_strlen) (simp add: scanned_def)
  with digit.prems(1) digit.hyps digit_run_pos [of "user_input st" p]
  have "scanned (user_input st) (p + tok_len (user_input st) ?t) (cur @ [?t])"
    by (rule_tac scanned_snoc) (simp_all add: tok_len_def)
  then have "scanned (user_input st) (p + length (digit_run (user_input st) p)) (cur @ [?t])"
    by (simp add: tok_len_def)
  with digit show ?case by (simp add: tokenize_loop_digit)
next
  case (bad p cur)
  then show ?case by (simp add: tokenize_loop_bad error_at_def Let_def)
qed

lemma scanned_Nil: "scanned s 0 []"
  by (simp add: scanned_def)

text \<open>
  Claim C4.  Whenever the lexer succeeds, the token list is not empty and ends in the
  \<open>TK_EOF\<close> token positioned at the end offset of the input (the offset of its terminating
  NUL); no other token is a \<open>TK_EOF\<close> token; the positions increase strictly from left to
  right; the bytes a token covers (\<open>tok_len\<close>: one for an operator, the run of digits for a
  number, none for the end marker) end before any later token starts; and every
  \<open>TK_RESERVED\<close> token sits on a \<open>+\<close> or a \<open>-\<close>, covers exactly that byte, and its
  \<open>val\<close> field is the zero left by \<open>calloc\<close>.
\<close>

theorem tokenize_invariants:
  assumes "tokenize st = Return ts st'"
  shows "ts \<noteq> [] \<and>
         last ts = \<lparr>kind = TK_EOF, val = 0, str = strlen (user_input st)\<rparr> \<and>
         (\<forall>t\<in>set (butlast ts). kind t \<noteq> TK_EOF) \<and>
         sorted_wrt (\<lambda>a b. str a < str b) ts \<and>
         sorted_wrt (\<lambda>a b. str a + tok_len (user_input st) a \<le> str b) ts \<and>
         (\<forall>t\<in>set ts. kind t = TK_RESERVED \<longrightarrow>
            (char_at (user_input st) (str t) = CHR ''+'' \<or> char_at (user_input st) (str t) = CHR ''-'') \<and>
            tok_len (user_input st) t = 1 \<and> val t = 0)"
proof -
  let ?s = "user_input st"
  let ?eof = "\<lparr>kind = TK_EOF, val = 0, str = strlen ?s\<rparr>"
  from assms scanned_Nil [of ?s] obtain front
    where ts: "ts = front @ [?eof]" and sc: "scanned ?s (strlen ?s) front"
    unfolding tokenize_def by (blast dest: tokenize_loop_scanned)
  from sc have front: "\<forall>t\<in>set front. kind t \<noteq> TK_EOF \<and> 0 < tok_len ?s t \<and>
      str t + tok_len ?s t \<le> strlen ?s \<and>
      (kind t = TK_RESERVED \<longrightarrow>
         (char_at ?s (str t) = CHR ''+'' \<or> char_at ?s (str t) = CHR ''-'') \<and> val t = 0)"
    and sorted: "sorted_wrt (\<lambda>a b. str a + tok_len ?s a \<le> str b) front"
    by (simp_all add: scanned_def)
  have "sorted_wrt (\<lambda>a b. str a < str b) front"
  proof (rule sorted_wrt_mono_rel [OF _ sorted])
    fix a b
    assume "a \<in> set front" "str a + tok_len ?s a \<le> str b"
    with front show "str a < str b" by fastforce
  qed
  with front have strict: "sorted_wrt (\<lambda>a b. str a < str b) ts"
    unfolding ts by (fastforce simp: sorted_wrt_append)
  from front sorted have overlap: "sorted_wrt (\<lambda>a b. str a + tok_len ?s a \<le> str b) ts"
    unfolding ts by (simp add: sorted_wrt_append)
  from front have ops: "\<forall>t\<in>set ts. kind t = TK_RESERVED \<longrightarrow>
            (char_at ?s (str t) = CHR ''+'' \<or> char_at ?s (str t) = CHR ''-'') \<and>
            tok_len ?s t = 1 \<and> val t = 0"
    unfolding ts by (auto simp: tok_len_def)
  from front have "\<forall>t\<in>set (butlast ts). kind t \<noteq> TK_EOF"
    unfolding ts by simp
  with strict overlap ops show ?thesis
    unfolding ts by simp
qed

theorem tokenize_invariants_witness:
  "tokenize \<lparr>token = [], user_input = ''12 +3'', stdout = [], stderr = []\<rparr> =
     Return [\<lparr>kind = TK_NUM, val = 12, str = 0\<rparr>, \<lparr>kind = TK_RESERVED, val = 0, str = 3\<rparr>,
             \<lparr>kind = TK_NUM, val = 3, str = 4\<rparr>, \<lparr>kind = TK_EOF, val = 0, str = 5\<rparr>]
       \<lparr>token = [], user_input = ''12 +3'', stdout = [], stderr = []\<rparr> \<and>
   last [\<lparr>kind = TK_NUM, val = 12, str = 0\<rparr>, \<lparr>kind = TK_RESERVED, val = 0, str = 3\<rparr>,
         \<lparr>kind = TK_NUM, val = 3, str = 4\<rparr>, \<lparr>kind = TK_EOF, val = 0, str = 5\<rparr>] =
     \<lparr>kind = TK_EOF, val = 0, str = strlen ''12 +3''\<rparr> \<and>
   sorted_wrt (\<lambda>a b. str a + tok_len ''12 +3'' a \<le> str b)
     [\<lparr>kind = TK_NUM, val = 12, str = 0\<rparr>, \<lparr>kind = TK_RESERVED, val = 0, str = 3\<rparr>,
      \<lparr>kind = TK_NUM, val = 3, str = 4\<rparr>, \<lparr>kind = TK_EOF, val = 0, str = 5\<rparr>]"
proof -
  have run: "tokenize \<lparr>token = [], user_input = ''12 +3'', stdout = [], stderr = []\<rparr> =
     Return [\<lparr>kind = TK_NUM, val = 12, str = 0\<rparr>, \<lparr>kind = TK_RESERVED, val = 0, str = 3\<rparr>,
             \<lparr>kind = TK_NUM, val = 3, str = 4\<rparr>, \<lparr>kind = TK_EOF, val = 0, str = 5\<rparr>]
       \<lparr>token = [], user_input = ''12 +3'', stdout = [], stderr = []\<rparr>"
    by code_simp
  from tokenize_invariants [OF run] show ?thesis
    using run by simp
qed

section \<open>Number tokens and white space\<close>

lemma sint_word_of_int_32:
  "- (2 ^ 31) \<le> x \<Longrightarrow> x < 2 ^ 31 \<Longrightarrow> sint (word_of_int x :: 32 word) = x"
  by (simp add: sint_sbintrunc' signed_take_bit_int_eq_self)

lemma decimal_snoc: "decimal (ds @ [c]) = decimal ds * 10 + digit_val c"
  by (simp add: decimal_def)

lemma decimal_Nil: "decimal [] = 0"
  by (simp add: decimal_def)

lemma digit_val_range: "isdigit c \<Longrightarrow> 0 \<le> digit_val c \<and> digit_val c \<le> 9"
  by (auto simp: isdigit_def digit_val_def)

lemma decimal_nonneg: "\<forall>c\<in>set ds. isdigit c \<Longrightarrow> 0 \<le> decimal ds"
proof (induction ds rule: rev_induct)
  case Nil
  then show ?case by (simp add: decimal_Nil)
next
  case (snoc c ds)
  then have "0 \<le> decimal ds" and "0 \<le> digit_val c"
    by (simp_all add: digit_val_range)
  then show ?case by (simp add: decimal_snoc)
qed

lemma digit_run_digits: "\<forall>c\<in>set (digit_run s p). isdigit c"
  by (auto simp: digit_run_def dest: set_takeWhileD)

lemma with_front_Nil: "with_front [] r = r"
  by (simp add: with_front_def split: outcome.splits)

lemma with_front_append: "with_front (a @ b) r = with_front a (with_front b r)"
  by (simp add: with_front_def split: outcome.splits)

text \<open>The list built so far only stands in front of what the rest of the scan produces.\<close>

lemma tokenize_loop_front_all:
  fixes d :: "Token list"
  shows "\<forall>cur. tokenize_loop st p cur = with_front cur (tokenize_loop st p [])"
proof (induction p d rule: tokenize_loop_scan_induct [where st = st])
  case (eof p d)
  then show ?case by (simp add: tokenize_loop_end with_front_def)
next
  case (space p d)
  show ?case
  proof
    fix cur
    from space.IH have "tokenize_loop st (Suc p) cur = with_front cur (tokenize_loop st (Suc p) [])"
      by blast
    with tokenize_loop_space [OF space.hyps, of cur] tokenize_loop_space [OF space.hyps, of "[]"]
    show "tokenize_loop st p cur = with_front cur (tokenize_loop st p [])"
      by (simp only:)
  qed
next
  case (op p d)
  let ?t = "\<lparr>kind = TK_RESERVED, val = 0, str = p\<rparr>"
  show ?case
  proof
    fix cur
    from op.IH have "tokenize_loop st (Suc p) (cur @ [?t]) = with_front (cur @ [?t]) (tokenize_loop st (Suc p) [])"
      and "tokenize_loop st (Suc p) [?t] = with_front [?t] (tokenize_loop st (Suc p) [])"
      by blast+
    with op.hyps show "tokenize_loop st p cur = with_front cur (tokenize_loop st p [])"
      by (simp add: tokenize_loop_op [of st p] with_front_append)
  qed
next
  case (digit p d)
  let ?t = "\<lparr>kind = TK_NUM,
             val = word_of_int (min (decimal (digit_run (user_input st) p)) LONG_MAX), str = p\<rparr>"
  let ?q = "p + length (digit_run (user_input st) p)"
  show ?case
  proof
    fix cur
    from digit.IH have "tokenize_loop st ?q (cur @ [?t]) = with_front (cur @ [?t]) (tokenize_loop st ?q [])"
      and "tokenize_loop st ?q [?t] = with_front [?t] (tokenize_loop st ?q [])"
      by blast+
    with digit.hyps show "tokenize_loop st p cur = with_front cur (tokenize_loop st p [])"
      by (simp add: tokenize_loop_digit [of st p] with_front_append)
  qed
next
  case (bad p d)
  then show ?case by (simp add: tokenize_loop_bad error_at_def Let_def with_front_def)
qed

lemma tokenize_loop_front: "tokenize_loop st p cur = with_front cur (tokenize_loop st p [])"
  using tokenize_loop_front_all [of st p] by blast

text \<open>Every token the scan produces from \<open>p\<close> on is positioned at \<open>p\<close> or after it.\<close>

lemma tokenize_loop_positions_gen:
  "tokenize_loop st p cur = Return ts st' \<Longrightarrow>
     \<exists>rest. ts = cur @ rest \<and> (\<forall>t\<in>set rest. p \<le> str t)"
proof (induction p cur rule: tokenize_loop_scan_induct [where st = st])
  case (eof p cur)
  then show ?case by (auto simp: tokenize_loop_end)
next
  case (space p cur)
  then have "\<exists>rest. ts = cur @ rest \<and> (\<forall>t\<in>set rest. Suc p \<le> str t)"
    by (simp add: tokenize_loop_space)
  then show ?case by (auto intro: Suc_leD)
next
  case (op p cur)
  then have "\<exists>rest. ts = (cur @ [\<lparr>kind = TK_RESERVED, val = 0, str = p\<rparr>]) @ rest \<and>
      (\<forall>t\<in>set rest. Suc p \<le> str t)"
    by (simp add: tokenize_loop_op)
  then obtain rest where "ts = cur @ (\<lparr>kind = TK_RESERVED, val = 0, str = p\<rparr> # rest)"
    "\<forall>t\<in>set rest. Suc p \<le> str t" by auto
  then have "ts = cur @ (\<lparr>kind = TK_RESERVED, val = 0, str = p\<rparr> # rest) \<and>
      (\<forall>t\<in>set (\<lparr>kind = TK_RESERVED, val = 0, str = p\<rparr> # rest). p \<le> str t)"
    by (auto intro: Suc_leD)
  then show ?case by blast
next
  case (digit p cur)
  let ?t = "\<lparr>kind = TK_NUM,
             val = word_of_int (min (decimal (digit_run (user_input st) p)) LONG_MAX), str = p\<rparr>"
  let ?q = "p + length (digit_run (user_input st) p)"
  from digit have "\<exists>rest. ts = (cur @ [?t]) @ rest \<and> (\<forall>t\<in>set rest. ?q \<le> str t)"
    by (simp add: tokenize_loop_digit)
  then obtain rest where r: "ts = cur @ (?t # rest)" "\<forall>t\<in>set rest. ?q \<le> str t" by auto
  from r(2) have "\<forall>t\<in>set rest. p \<le> str t" by auto
  with r(1) have "ts = cur @ (?t # rest) \<and> (\<forall>t\<in>set (?t # rest). p \<le> str t)"
    by simp
  then show ?case by blast
next
  case (bad p cur)
  then show ?case by (simp add: tokenize_loop_bad error_at_def Let_def)
qed

lemma tokenize_loop_positions:
  "tokenize_loop st p [] = Return ts st' \<Longrightarrow> \<forall>t\<in>set ts. p \<le> str t"
  using tokenize_loop_positions_gen [of st p "[]" ts st'] by simp

text \<open>
  Claim C6, as amended.  Where the scan pointer is on a digit and the value of the
  maximal run of digits there fits the 32-bit \<open>int\<close> field, the outcome of the lexer is
  the list built so far, then exactly one \<open>TK_NUM\<close> token at that position, whose value
  read as a signed integer is the base-10 value of the run, then the tokens that the scan
  from right after the run produces, all of them positioned after the run (or the lexical
  error that scan ends in).  The run is not empty, all of its bytes are digits, and the byte
  after it is not a digit.  Where the scan pointer is on a white space byte, the outcome is
  the list built so far followed by the tokens of the scan from the next byte, all of them
  positioned after the white space byte: no token stands for it.
\<close>

theorem tokenize_number_and_space:
  "(isdigit (char_at (user_input st) p) \<and> decimal (digit_run (user_input st) p) < 2 ^ 31 \<longrightarrow>
      tokenize_loop st p cur =
        with_front
          (cur @ [\<lparr>kind = TK_NUM, val = word_of_int (decimal (digit_run (user_input st) p)), str = p\<rparr>])
          (tokenize_loop st (p + length (digit_run (user_input st) p)) []) \<and>
      (\<forall>ts st'. tokenize_loop st p cur = Return ts st' \<longrightarrow>
         (\<exists>rest. ts = cur @ [\<lparr>kind = TK_NUM, val = word_of_int (decimal (digit_run (user_input st) p)),
                               str = p\<rparr>] @ rest \<and>
            tokenize_loop st (p + length (digit_run (user_input st) p)) [] = Return rest st' \<and>
            (\<forall>t\<in>set rest. p + length (digit_run (user_input st) p) \<le> str t))) \<and>
      tokenize_loop st p cur =
        tokenize_loop st (p + length (digit_run (user_input st) p))
          (cur @ [\<lparr>kind = TK_NUM, val = word_of_int (decimal (digit_run (user_input st) p)), str = p\<rparr>]) \<and>
      sint (word_of_int (decimal (digit_run (user_input st) p)) :: 32 word) =
        decimal (digit_run (user_input st) p) \<and>
      0 < length (digit_run (user_input st) p) \<and>
      (\<forall>k < length (digit_run (user_input st) p). isdigit (char_at (user_input st) (p + k))) \<and>
      \<not> isdigit (char_at (user_input st) (p + length (digit_run (user_input st) p)))) \<and>
   (isspace (char_at (user_input st) p) \<longrightarrow>
      tokenize_loop st p cur = with_front cur (tokenize_loop st (Suc p) []) \<and>
      (\<forall>ts st'. tokenize_loop st p cur = Return ts st' \<longrightarrow>
         (\<exists>rest. ts = cur @ rest \<and> tokenize_loop st (Suc p) [] = Return rest st' \<and>
            (\<forall>t\<in>set rest. Suc p \<le> str t))) \<and>
      tokenize_loop st p cur = tokenize_loop st (Suc p) cur)"
proof (intro conjI impI)
  let ?run = "digit_run (user_input st) p"
  let ?q = "p + length ?run"
  let ?num = "\<lparr>kind = TK_NUM, val = word_of_int (decimal ?run), str = p\<rparr>"
  assume a: "isdigit (char_at (user_input st) p) \<and> decimal ?run < 2 ^ 31"
  have nonneg: "0 \<le> decimal ?run"
    by (rule decimal_nonneg [OF digit_run_digits])
  from a have "min (decimal ?run) LONG_MAX = decimal ?run"
    by (simp add: LONG_MAX_def)
  with a show step: "tokenize_loop st p cur = tokenize_loop st ?q (cur @ [?num])"
    by (simp add: tokenize_loop_digit)
  then show front: "tokenize_loop st p cur = with_front (cur @ [?num]) (tokenize_loop st ?q [])"
    using tokenize_loop_front [of st ?q "cur @ [?num]"] by simp
  show "\<forall>ts st'. tokenize_loop st p cur = Return ts st' \<longrightarrow>
         (\<exists>rest. ts = cur @ [?num] @ rest \<and> tokenize_loop st ?q [] = Return rest st' \<and>
            (\<forall>t\<in>set rest. ?q \<le> str t))"
  proof (intro allI impI)
    fix ts st'
    assume "tokenize_loop st p cur = Return ts st'"
    with front obtain rest where r: "tokenize_loop st ?q [] = Return rest st'" "ts = (cur @ [?num]) @ rest"
      by (auto simp: with_front_def split: outcome.splits)
    from r(1) have "\<forall>t\<in>set rest. ?q \<le> str t"
      by (rule tokenize_loop_positions)
    with r show "\<exists>rest. ts = cur @ [?num] @ rest \<and> tokenize_loop st ?q [] = Return rest st' \<and>
            (\<forall>t\<in>set rest. ?q \<le> str t)"
      by auto
  qed
  from a nonneg show "sint (word_of_int (decimal ?run) :: 32 word) = decimal ?run"
    by (intro sint_word_of_int_32) simp_all
  from a digit_run_pos [of "user_input st" p] show "0 < length ?run"
    by blast
  show "\<forall>k < length ?run. isdigit (char_at (user_input st) (p + k))"
    by (simp add: digit_run_nth)
  show "\<not> isdigit (char_at (user_input st) (p + length ?run))"
    by (rule digit_run_stop)
next
  assume sp: "isspace (char_at (user_input st) p)"
  then show step: "tokenize_loop st p cur = tokenize_loop st (Suc p) cur"
    by (rule tokenize_loop_space)
  then show front: "tokenize_loop st p cur = with_front cur (tokenize_loop st (Suc p) [])"
    using tokenize_loop_front [of st "Suc p" cur] by simp
  show "\<forall>ts st'. tokenize_loop st p cur = Return ts st' \<longrightarrow>
         (\<exists>rest. ts = cur @ rest \<and> tokenize_loop st (Suc p) [] = Return rest st' \<and>
            (\<forall>t\<in>set rest. Suc p \<le> str t))"
  proof (intro allI impI)
    fix ts st'
    assume "tokenize_loop st p cur = Return ts st'"
    with front obtain rest where r: "tokenize_loop st (Suc p) [] = Return rest st'" "ts = cur @ rest"
      by (auto simp: with_front_def split: outcome.splits)
    from r(1) have "\<forall>t\<in>set rest. Suc p \<le> str t"
      by (rule tokenize_loop_positions)
    with r show "\<exists>rest. ts = cur @ rest \<and> tokenize_loop st (Suc p) [] = Return rest st' \<and>
            (\<forall>t\<in>set rest. Suc p \<le> str t)"
      by auto
  qed
qed

theorem tokenize_number_and_space_witness:
  "tokenize_loop \<lparr>token = [], user_input = ''12 +3'', stdout = [], stderr = []\<rparr> 0 [] =
     Return [\<lparr>kind = TK_NUM, val = 12, str = 0\<rparr>, \<lparr>kind = TK_RESERVED, val = 0, str = 3\<rparr>,
             \<lparr>kind = TK_NUM, val = 3, str = 4\<rparr>, \<lparr>kind = TK_EOF, val = 0, str = 5\<rparr>]
       \<lparr>token = [], user_input = ''12 +3'', stdout = [], stderr = []\<rparr> \<and>
   sint (12 :: 32 word) = decimal ''12'' \<and>
   tokenize_loop \<lparr>token = [], user_input = ''12 +3'', stdout = [], stderr = []\<rparr> 2
       [\<lparr>kind = TK_NUM, val = 12, str = 0\<rparr>] =
     Return [\<lparr>kind = TK_NUM, val = 12, str = 0\<rparr>, \<lparr>kind = TK_RESERVED, val = 0, str = 3\<rparr>,
             \<lparr>kind = TK_NUM, val = 3, str = 4\<rparr>, \<lparr>kind = TK_EOF, val = 0, str = 5\<rparr>]
       \<lparr>token = [], user_input = ''12 +3'', stdout = [], stderr = []\<rparr>"
proof -
  let ?st = "\<lparr>token = [], user_input = ''12 +3'', stdout = [], stderr = []\<rparr>"
  let ?n12 = "\<lparr>kind = TK_NUM, val = 12, str = 0\<rparr>"
  let ?rest = "[\<lparr>kind = TK_RESERVED, val = 0, str = 3\<rparr>, \<lparr>kind = TK_NUM, val = 3, str = 4\<rparr>,
                \<lparr>kind = TK_EOF, val = 0, str = 5\<rparr>]"
  have run: "digit_run ''12 +3'' 0 = ''12''"
    by (simp add: digit_run_def isdigit_def)
  have dec: "decimal ''12'' = 12"
    by (simp add: decimal_def digit_val_def)
  have d: "isdigit (char_at (user_input ?st) 0) \<and> decimal (digit_run (user_input ?st) 0) < 2 ^ 31"
    by (simp add: run dec char_at_def isdigit_def)
  have s: "isspace (char_at (user_input ?st) 2)"
    by (simp add: char_at_def isspace_def)
  have after: "tokenize_loop ?st 3 [] = Return ?rest ?st"
    by code_simp
  from tokenize_number_and_space [of ?st 2 "[?n12]"] s
  have "tokenize_loop ?st 2 [?n12] = with_front [?n12] (tokenize_loop ?st (Suc 2) [])"
    by blast
  with after have two: "tokenize_loop ?st 2 [?n12] = Return (?n12 # ?rest) ?st"
    by (simp add: with_front_def)
  from tokenize_number_and_space [of ?st 2 "[]"] s
  have "tokenize_loop ?st 2 [] = with_front [] (tokenize_loop ?st (Suc 2) [])"
    by blast
  with after have mid: "tokenize_loop ?st 2 [] = Return ?rest ?st"
    by (simp add: with_front_def)
  from tokenize_number_and_space [of ?st 0 "[]"] d
  have "tokenize_loop ?st 0 [] =
      with_front ([] @ [\<lparr>kind = TK_NUM, val = word_of_int (decimal (digit_run (user_input ?st) 0)), str = 0\<rparr>])
        (tokenize_loop ?st (0 + length (digit_run (user_input ?st) 0)) [])"
    and sg: "sint (word_of_int (decimal (digit_run (user_input ?st) 0)) :: 32 word) =
        decimal (digit_run (user_input ?st) 0)"
    by blast+
  with mid have one: "tokenize_loop ?st 0 [] = Return (?n12 # ?rest) ?st"
    by (simp add: run dec with_front_def numeral_2_eq_2)
  from sg have "sint (12 :: 32 word) = decimal ''12''"
    by (simp add: run dec)
  with one two show ?thesis by simp
qed

text \<open>
  Claim C6 as stated fails where the run of digits does not fit the \<open>int\<close> field: for the
  input \<open>4294967296\<close> the lexer emits a number token whose value is 0, while the base-10
  value of the run is 4294967296.
\<close>

theorem tokenize_number_counterexample:
  "tokenize \<lparr>token = [], user_input = ''4294967296'', stdout = [], stderr = []\<rparr> =
     Return [\<lparr>kind = TK_NUM, val = 0, str = 0\<rparr>, \<lparr>kind = TK_EOF, val = 0, str = 10\<rparr>]
       \<lparr>token = [], user_input = ''4294967296'', stdout = [], stderr = []\<rparr> \<and>
   digit_run ''4294967296'' 0 = ''4294967296'' \<and>
   decimal ''4294967296'' = 4294967296 \<and>
   sint (0 :: 32 word) = 0"
  by code_simp

section \<open>Diagnostics and the cursor operations\<close>

text \<open>What \<open>error_at\<close> leaves behind: only the error stream has grown, and the status is 1.\<close>

lemma error_at_eq:
  "error_at st loc msg =
     Exit 1 (st\<lparr>stderr := stderr st @ c_str (user_input st) @ [CHR 0x0A] @
                      printf_pad loc [CHR 0x20] @ ''^ '' @ msg @ [CHR 0x0A]\<rparr>)"
  by (simp add: error_at_def fprintf_stderr_def Let_def)


lemma printf_pad_zero: "printf_pad 0 [CHR 0x20] = [CHR 0x20]"
  by (simp add: printf_pad_def)

lemma expect_number_eq:
  "token st = t # next \<Longrightarrow>
     expect_number st =
       (if kind t = TK_NUM then Return (val t) (st\<lparr>token := next\<rparr>)
        else error_at st (str t) msg_not_number)"
  by (simp add: expect_number_def)

lemma expect_eq:
  "token st = t # next \<Longrightarrow>
     expect op st =
       (if kind t = TK_RESERVED \<and> char_at (user_input st) (str t) = op
        then Return () (st\<lparr>token := next\<rparr>)
        else error_at st (str t) (msg_not_char op))"
  by (simp add: expect_def)

lemma consume_eq:
  "token st = t # next \<Longrightarrow>
     consume op st =
       (if kind t = TK_RESERVED \<and> char_at (user_input st) (str t) = op
        then Return True (st\<lparr>token := next\<rparr>)
        else Return False st)"
  by (simp add: consume_def)

lemma at_eof_eq: "token st = t # next \<Longrightarrow> at_eof st = Return (kind t = TK_EOF) st"
  by (simp add: at_eof_def)

text \<open>The name of the program is not looked at when there is one argument.\<close>

lemma main_prog: "main [prog, s] = main [[], s]"
  by (simp add: main_def)

text \<open>
  Claim C8.  With the cursor on a token, \<open>expect_number\<close> ends the process through
  \<open>error_at\<close> at the position of that token with the message "not a number" whenever the
  token is not a \<open>TK_NUM\<close> token, which writes to the error stream only and exits with
  status 1; otherwise it returns the token's value and moves the cursor to the next
  token, changing nothing else.  For the input \<open>1 + + 2\<close> the process exits with status 1,
  and the caret of the report stands under byte 4, the second \<open>+\<close>.
\<close>

theorem expect_number_spec:
  "(\<forall>st t next. token st = t # next \<longrightarrow>
      (kind t \<noteq> TK_NUM \<longrightarrow>
         expect_number st = error_at st (str t) msg_not_number \<and>
         (error_at st (str t) msg_not_number :: (32 word) outcome) =
           Exit 1 (st\<lparr>stderr := stderr st @ c_str (user_input st) @ [CHR 0x0A] @
                       printf_pad (str t) [CHR 0x20] @ ''^ '' @ msg_not_number @ [CHR 0x0A]\<rparr>)) \<and>
      (kind t = TK_NUM \<longrightarrow> expect_number st = Return (val t) (st\<lparr>token := next\<rparr>))) \<and>
   main [prog, ''1 + + 2''] =
     Exit 1 \<lparr>token = [\<lparr>kind = TK_RESERVED, val = 0, str = 4\<rparr>, \<lparr>kind = TK_NUM, val = 2, str = 6\<rparr>,
                       \<lparr>kind = TK_EOF, val = 0, str = 7\<rparr>],
             user_input = ''1 + + 2'',
             stdout = prologue @ ''  mov rax, 1'' @ [CHR 0x0A],
             stderr = ''1 + + 2'' @ [CHR 0x0A] @ replicate 4 CHR 0x20 @ ''^ '' @ msg_not_number @ [CHR 0x0A]\<rparr> \<and>
   char_at ''1 + + 2'' 4 = CHR ''+'' \<and> char_at ''1 + + 2'' 2 = CHR ''+''"
proof -
  have "main [[], ''1 + + 2''] =
     Exit 1 \<lparr>token = [\<lparr>kind = TK_RESERVED, val = 0, str = 4\<rparr>, \<lparr>kind = TK_NUM, val = 2, str = 6\<rparr>,
                       \<lparr>kind = TK_EOF, val = 0, str = 7\<rparr>],
             user_input = ''1 + + 2'',
             stdout = prologue @ ''  mov rax, 1'' @ [CHR 0x0A],
             stderr = ''1 + + 2'' @ [CHR 0x0A] @ replicate 4 CHR 0x20 @ ''^ '' @ msg_not_number @ [CHR 0x0A]\<rparr>"
    by code_simp
  then show ?thesis
    by (simp add: main_prog [of prog] expect_number_eq error_at_eq char_at_def)
qed

theorem expect_number_spec_witness:
  "expect_number
     \<lparr>token = [\<lparr>kind = TK_RESERVED, val = 0, str = 4\<rparr>, \<lparr>kind = TK_NUM, val = 2, str = 6\<rparr>,
               \<lparr>kind = TK_EOF, val = 0, str = 7\<rparr>],
      user_input = ''1 + + 2'', stdout = ''x'', stderr = []\<rparr> =
   Exit 1
     \<lparr>token = [\<lparr>kind = TK_RESERVED, val = 0, str = 4\<rparr>, \<lparr>kind = TK_NUM, val = 2, str = 6\<rparr>,
               \<lparr>kind = TK_EOF, val = 0, str = 7\<rparr>],
      user_input = ''1 + + 2'', stdout = ''x'',
      stderr = ''1 + + 2'' @ [CHR 0x0A] @ ''    ^ '' @ msg_not_number @ [CHR 0x0A]\<rparr> \<and>
   expect_number
     \<lparr>token = [\<lparr>kind = TK_NUM, val = 2, str = 6\<rparr>, \<lparr>kind = TK_EOF, val = 0, str = 7\<rparr>],
      user_input = ''1 + + 2'', stdout = ''x'', stderr = []\<rparr> =
   Return 2
     \<lparr>token = [\<lparr>kind = TK_EOF, val = 0, str = 7\<rparr>],
      user_input = ''1 + + 2'', stdout = ''x'', stderr = []\<rparr>"
proof -
  let ?plus = "\<lparr>kind = TK_RESERVED, val = 0, str = 4\<rparr>"
  let ?two = "\<lparr>kind = TK_NUM, val = 2, str = 6\<rparr>"
  let ?eof = "\<lparr>kind = TK_EOF, val = 0, str = 7\<rparr>"
  let ?st1 = "\<lparr>token = [?plus, ?two, ?eof], user_input = ''1 + + 2'', stdout = ''x'', stderr = []\<rparr>"
  let ?st2 = "\<lparr>token = [?two, ?eof], user_input = ''1 + + 2'', stdout = ''x'', stderr = []\<rparr>"
  from expect_number_spec [of "[]"]
  have gen: "\<And>st t next. token st = t # next \<Longrightarrow>
      (kind t \<noteq> TK_NUM \<longrightarrow>
         expect_number st = error_at st (str t) msg_not_number \<and>
         (error_at st (str t) msg_not_number :: (32 word) outcome) =
           Exit 1 (st\<lparr>stderr := stderr st @ c_str (user_input st) @ [CHR 0x0A] @
                       printf_pad (str t) [CHR 0x20] @ ''^ '' @ msg_not_number @ [CHR 0x0A]\<rparr>)) \<and>
      (kind t = TK_NUM \<longrightarrow> expect_number st = Return (val t) (st\<lparr>token := next\<rparr>))"
    by blast
  from gen [of ?st1 ?plus "[?two, ?eof]"] gen [of ?st2 ?two "[?eof]"]
  show ?thesis
    by (simp add: c_str_def printf_pad_def numeral_3_eq_3)
qed

section \<open>Blank input\<close>

lemma tokenize_loop_skip_spaces:
  "(\<forall>k<n. isspace (char_at (user_input st) (p + k))) \<Longrightarrow>
     tokenize_loop st p cur = tokenize_loop st (p + n) cur"
proof (induction n arbitrary: p)
  case 0
  then show ?case by simp
next
  case (Suc n)
  from Suc.prems have "isspace (char_at (user_input st) (p + 0))" by blast
  then have step: "tokenize_loop st p cur = tokenize_loop st (Suc p) cur"
    by (simp add: tokenize_loop_space)
  have "\<forall>k<n. isspace (char_at (user_input st) (Suc p + k))"
  proof (intro allI impI)
    fix k assume "k < n"
    with Suc.prems have "isspace (char_at (user_input st) (p + Suc k))" by blast
    then show "isspace (char_at (user_input st) (Suc p + k))" by simp
  qed
  then have "tokenize_loop st (Suc p) cur = tokenize_loop st (Suc p + n) cur"
    by (rule Suc.IH)
  with step show ?case by simp
qed

lemma c_str_id: "CHR 0x00 \<notin> set s \<Longrightarrow> c_str s = s"
  by (auto simp: c_str_def takeWhile_eq_all_conv)

lemma spaces_no_NUL: "\<forall>c\<in>set ws. isspace c \<Longrightarrow> CHR 0x00 \<notin> set ws"
  using isspace_facts by blast

lemma tokenize_spaces:
  assumes "\<forall>c\<in>set (user_input st). isspace c"
  shows "tokenize st = Return [\<lparr>kind = TK_EOF, val = 0, str = length (user_input st)\<rparr>] st"
proof -
  from assms have "\<forall>k<length (user_input st). isspace (char_at (user_input st) (0 + k))"
    by (simp add: char_at_def)
  then have "tokenize_loop st 0 [] = tokenize_loop st (0 + length (user_input st)) []"
    by (rule tokenize_loop_skip_spaces)
  then show ?thesis
    by (simp add: tokenize_def tokenize_loop_end char_at_def)
qed

text \<open>
  Claim C10.  For the empty string and for every input of white space only, the lexer
  succeeds with the list holding the \<open>TK_EOF\<close> token alone, positioned at the end of the
  input, and \<open>main\<close> ends through \<open>error_at\<close> at that position with the "not a number"
  message and exit status 1.  Standard output then holds the prologue and nothing else: the
  process ends in the first \<open>expect_number\<close>, before the first \<open>mov\<close> line and before the
  loop.
\<close>

theorem main_blank_input:
  assumes "\<forall>c\<in>set ws. isspace c"
  shows "tokenize \<lparr>token = [], user_input = ws, stdout = [], stderr = []\<rparr> =
           Return [\<lparr>kind = TK_EOF, val = 0, str = length ws\<rparr>]
             \<lparr>token = [], user_input = ws, stdout = [], stderr = []\<rparr> \<and>
         main [prog, ws] =
           error_at \<lparr>token = [\<lparr>kind = TK_EOF, val = 0, str = length ws\<rparr>], user_input = ws,
                     stdout = prologue, stderr = []\<rparr> (length ws) msg_not_number \<and>
         main [prog, ws] =
           Exit 1 \<lparr>token = [\<lparr>kind = TK_EOF, val = 0, str = length ws\<rparr>], user_input = ws,
                   stdout = prologue,
                   stderr = ws @ [CHR 0x0A] @ printf_pad (length ws) [CHR 0x20] @ ''^ '' @
                            msg_not_number @ [CHR 0x0A]\<rparr>"
proof -
  let ?st = "\<lparr>token = [], user_input = ws, stdout = [], stderr = []\<rparr>"
  from assms have tok: "tokenize ?st = Return [\<lparr>kind = TK_EOF, val = 0, str = length ws\<rparr>] ?st"
    using tokenize_spaces [of ?st] by simp
  from assms have "c_str ws = ws"
    by (intro c_str_id spaces_no_NUL)
  with tok show ?thesis
    by (simp add: main_def Let_def printf_def prologue_def expect_number_def error_at_eq)
qed

theorem main_blank_input_witness:
  "main [''9cc'', ''  ''] =
     Exit 1 \<lparr>token = [\<lparr>kind = TK_EOF, val = 0, str = 2\<rparr>], user_input = ''  '',
             stdout = prologue,
             stderr = ''  '' @ [CHR 0x0A] @ ''  ^ '' @ msg_not_number @ [CHR 0x0A]\<rparr> \<and>
   main [''9cc'', ''''] =
     Exit 1 \<lparr>token = [\<lparr>kind = TK_EOF, val = 0, str = 0\<rparr>], user_input = '''',
             stdout = prologue,
             stderr = [CHR 0x0A] @ '' ^ '' @ msg_not_number @ [CHR 0x0A]\<rparr>"
proof -
  have a: "\<forall>c\<in>set ''  ''. isspace c" by (simp add: isspace_def)
  have b: "\<forall>c\<in>set ''''. isspace c" by simp
  from main_blank_input [OF a, THEN conjunct2, THEN conjunct2, of "''9cc''"]
    main_blank_input [OF b, THEN conjunct2, THEN conjunct2, of "''9cc''"]
  show ?thesis
    by (simp add: printf_pad_def numeral_2_eq_2)
qed

section \<open>Errors and standard output\<close>

lemma tokenize_loop_Return_chars:
  "tokenize_loop st p cur = Return ts st' \<Longrightarrow> p \<le> i \<Longrightarrow> i < strlen (user_input st) \<Longrightarrow>
     token_char (char_at (user_input st) i)"
proof (induction p cur rule: tokenize_loop_scan_induct [where st = st])
  case (eof p cur)
  from eof.prems(2,3) have "p < strlen (user_input st)" by simp
  then have "char_at (user_input st) p \<noteq> CHR 0x00"
    by (rule char_at_before_strlen(2))
  with eof.hyps show ?case by simp
next
  case (space p cur)
  show ?case
  proof (cases "i = p")
    case True
    with space.hyps show ?thesis by (simp add: token_char_def)
  next
    case False
    with space show ?thesis by (simp add: tokenize_loop_space)
  qed
next
  case (op p cur)
  show ?case
  proof (cases "i = p")
    case True
    with op.hyps show ?thesis by (auto simp: token_char_def)
  next
    case False
    with op show ?thesis by (simp add: tokenize_loop_op)
  qed
next
  case (digit p cur)
  show ?case
  proof (cases "i < p + length (digit_run (user_input st) p)")
    case True
    with digit.prems(2) have "i - p < length (digit_run (user_input st) p)" by simp
    then have "isdigit (char_at (user_input st) (p + (i - p)))"
      by (rule digit_run_nth)
    with digit.prems(2) show ?thesis by (simp add: token_char_def)
  next
    case False
    with digit show ?thesis by (simp add: tokenize_loop_digit)
  qed
next
  case (bad p cur)
  then show ?case by (simp add: tokenize_loop_bad error_at_def Let_def)
qed

text \<open>An input with a byte that starts no token makes the lexer exit, with status 1.\<close>

lemma tokenize_bad_char:
  assumes "i < strlen (user_input st)" and "\<not> token_char (char_at (user_input st) i)"
  shows "\<exists>q. tokenize st = error_at st q msg_cannot_tokenize"
proof (cases "tokenize st")
  case (Return ts st')
  with assms have False
    unfolding tokenize_def by (auto dest: tokenize_loop_Return_chars [where i = i])
  then show ?thesis ..
next
  case (Exit c st')
  then show ?thesis
    unfolding tokenize_def by (auto dest: tokenize_loop_Exit)
next
  case Fault
  then show ?thesis
    by (simp add: tokenize_def tokenize_loop_not_Fault)
qed


text \<open>
  Claim C5 at the offset 0: \<open>error_at\<close> writes one space before the caret, not none, so
  the caret stands under byte 1 of the input line.  The lexical error of the input \<open>*\<close> is
  reported that way.
\<close>

theorem error_at_offset_zero:
  "error_at st 0 msg =
     Exit 1 (st\<lparr>stderr := stderr st @ c_str (user_input st) @ [CHR 0x0A] @
                      [CHR 0x20] @ ''^ '' @ msg @ [CHR 0x0A]\<rparr>) \<and>
   main [prog, ''*''] =
     Exit 1 \<lparr>token = [], user_input = ''*'', stdout = [],
             stderr = ''*'' @ [CHR 0x0A] @ '' ^ '' @ msg_cannot_tokenize @ [CHR 0x0A]\<rparr>"
proof -
  have "main [[], ''*''] =
     Exit 1 \<lparr>token = [], user_input = ''*'', stdout = [],
             stderr = ''*'' @ [CHR 0x0A] @ '' ^ '' @ msg_cannot_tokenize @ [CHR 0x0A]\<rparr>"
    by code_simp
  then show ?thesis
    by (simp add: main_prog [of prog] error_at_eq printf_pad_zero)
qed

text \<open>
  The example of claim C5: for the input \<open>1 + *\<close> the process exits with status 1, nothing
  is written to standard output, and the caret stands under byte 4, the \<open>*\<close>.
\<close>

lemma main_lexical_error_example:
  "main [prog, ''1 + *''] =
     Exit 1 \<lparr>token = [], user_input = ''1 + *'', stdout = [],
             stderr = ''1 + *'' @ [CHR 0x0A] @ replicate 4 CHR 0x20 @ ''^ '' @
                      msg_cannot_tokenize @ [CHR 0x0A]\<rparr> \<and>
   char_at ''1 + *'' 4 = CHR ''*''"
proof -
  have "main [[], ''1 + *''] =
     Exit 1 \<lparr>token = [], user_input = ''1 + *'', stdout = [],
             stderr = ''1 + *'' @ [CHR 0x0A] @ replicate 4 CHR 0x20 @ ''^ '' @
                      msg_cannot_tokenize @ [CHR 0x0A]\<rparr>"
    by code_simp
  then show ?thesis
    by (simp add: main_prog [of prog] char_at_def)
qed

text \<open>
  Claim C2, as amended.  An input with a lexical error (a byte before the end that starts
  no token) makes the process exit with status 1 with nothing at all on standard output:
  the lexer runs to its end before anything is printed.  When the lexer succeeds and the very
  first token is not a number, the process exits with status 1 and standard output holds the
  prologue only (the two directives and the label), no instruction line.
\<close>

theorem no_instruction_on_early_error:
  "((\<exists>i < strlen s. \<not> token_char (char_at s i)) \<longrightarrow>
      (\<exists>st'. main [prog, s] = Exit 1 st' \<and> stdout st' = [])) \<and>
   (\<forall>t ts st1. tokenize \<lparr>token = [], user_input = s, stdout = [], stderr = []\<rparr> = Return (t # ts) st1 \<and>
       kind t \<noteq> TK_NUM \<longrightarrow>
      (\<exists>st'. main [prog, s] = Exit 1 st' \<and> stdout st' = prologue))"
proof (intro conjI impI allI)
  let ?st = "\<lparr>token = [], user_input = s, stdout = [], stderr = []\<rparr>"
  assume "\<exists>i < strlen s. \<not> token_char (char_at s i)"
  then obtain q where "tokenize ?st = error_at ?st q msg_cannot_tokenize"
    using tokenize_bad_char [of _ ?st] by auto
  then show "\<exists>st'. main [prog, s] = Exit 1 st' \<and> stdout st' = []"
    by (simp add: main_def error_at_eq)
next
  fix t ts st1
  let ?st = "\<lparr>token = [], user_input = s, stdout = [], stderr = []\<rparr>"
  assume a: "tokenize ?st = Return (t # ts) st1 \<and> kind t \<noteq> TK_NUM"
  then have "st1 = ?st"
    unfolding tokenize_def by (auto dest: tokenize_loop_Return)
  with a show "\<exists>st'. main [prog, s] = Exit 1 st' \<and> stdout st' = prologue"
    by (simp add: main_def Let_def printf_def prologue_def expect_number_def error_at_eq)
qed

theorem no_instruction_on_early_error_witness:
  "(\<exists>st'. main [''9cc'', ''1 + *''] = Exit 1 st' \<and> stdout st' = []) \<and>
   (\<exists>st'. main [''9cc'', ''+ 1''] = Exit 1 st' \<and> stdout st' = prologue)"
proof -
  have bad: "\<exists>i < strlen ''1 + *''. \<not> token_char (char_at ''1 + *'' i)"
  proof (intro exI conjI)
    show "4 < strlen ''1 + *''" by (simp add: strlen_def c_str_def)
    show "\<not> token_char (char_at ''1 + *'' 4)"
      by (simp add: token_char_def char_at_def isspace_def isdigit_def)
  qed
  have tok: "tokenize \<lparr>token = [], user_input = ''+ 1'', stdout = [], stderr = []\<rparr> =
      Return (\<lparr>kind = TK_RESERVED, val = 0, str = 0\<rparr> #
              [\<lparr>kind = TK_NUM, val = 1, str = 2\<rparr>, \<lparr>kind = TK_EOF, val = 0, str = 3\<rparr>])
        \<lparr>token = [], user_input = ''+ 1'', stdout = [], stderr = []\<rparr> \<and>
      kind \<lparr>kind = TK_RESERVED, val = 0, str = 0\<rparr> \<noteq> TK_NUM"
    by code_simp
  from no_instruction_on_early_error [of "''1 + *''" "''9cc''"] bad
  have one: "\<exists>st'. main [''9cc'', ''1 + *''] = Exit 1 st' \<and> stdout st' = []"
    by blast
  from no_instruction_on_early_error [of "''+ 1''" "''9cc''"] tok
  have two: "\<exists>st'. main [''9cc'', ''+ 1''] = Exit 1 st' \<and> stdout st' = prologue"
    by blast
  from one two show ?thesis ..
qed

text \<open>
  Claim C2 as stated fails on the code: for the input \<open>1 +\<close> the \<open>mov\<close> instruction is on
  standard output when the process exits with status 1, and for the input \<open>+\<close>, an error
  on the very first token, standard output holds the prologue.
\<close>

theorem no_instruction_counterexample:
  "main [''9cc'', ''1 +''] =
     Exit 1 \<lparr>token = [\<lparr>kind = TK_EOF, val = 0, str = 3\<rparr>], user_input = ''1 +'',
             stdout = ''.intel_syntax noprefix'' @ [CHR 0x0A] @ ''.globl main'' @ [CHR 0x0A] @
                      ''main:'' @ [CHR 0x0A] @ ''  mov rax, 1'' @ [CHR 0x0A],
             stderr = ''1 +'' @ [CHR 0x0A] @ ''   ^ '' @ msg_not_number @ [CHR 0x0A]\<rparr> \<and>
   main [''9cc'', ''+''] =
     Exit 1 \<lparr>token = [\<lparr>kind = TK_RESERVED, val = 0, str = 0\<rparr>, \<lparr>kind = TK_EOF, val = 0, str = 1\<rparr>],
             user_input = ''+'',
             stdout = ''.intel_syntax noprefix'' @ [CHR 0x0A] @ ''.globl main'' @ [CHR 0x0A] @
                      ''main:'' @ [CHR 0x0A],
             stderr = ''+'' @ [CHR 0x0A] @ '' ^ '' @ msg_not_number @ [CHR 0x0A]\<rparr>"
  by code_simp

section \<open>Adjacent numbers\<close>

lemma char_at_append_right: "char_at (a @ b) (length a + k) = char_at b k"
  by (simp add: char_at_def nth_append)

lemma char_at_append_left: "k < length a \<Longrightarrow> char_at (a @ b) k = a ! k"
  by (simp add: char_at_def nth_append)

lemma char_at_hd: "b \<noteq> [] \<Longrightarrow> char_at (a @ b @ c) (length a) = hd b"
  using char_at_append_right [of a "b @ c" 0]
  by (cases b) (simp_all add: char_at_def)

lemma digit_run_append:
  assumes "\<forall>c\<in>set ds. isdigit c" and "\<not> isdigit (char_at rest 0)"
  shows "digit_run (a @ ds @ rest) (length a) = ds"
proof -
  from assms(2) have "takeWhile isdigit rest = []"
    by (cases rest) (simp_all add: char_at_def)
  with assms(1) show ?thesis
    by (simp add: digit_run_def takeWhile_append2)
qed

lemma strlen_append:
  assumes "CHR 0x00 \<notin> set a"
  shows "strlen (a @ b) = length a + strlen b"
proof -
  have "takeWhile (\<lambda>c. c \<noteq> CHR 0x00) (a @ b) = a @ takeWhile (\<lambda>c. c \<noteq> CHR 0x00) b"
    using assms by (intro takeWhile_append2) auto
  then show ?thesis
    by (simp add: strlen_def c_str_def)
qed

lemma digits_no_NUL: "\<forall>c\<in>set ds. isdigit c \<Longrightarrow> CHR 0x00 \<notin> set ds"
  using isdigit_facts by blast

text \<open>Skipping a block of white space that stands in front of the scan pointer.\<close>

lemma tokenize_loop_skip_block:
  assumes "user_input st = a @ ws @ rest" and "\<forall>c\<in>set ws. isspace c"
  shows "tokenize_loop st (length a) cur = tokenize_loop st (length a + length ws) cur"
proof (rule tokenize_loop_skip_spaces)
  show "\<forall>k<length ws. isspace (char_at (user_input st) (length a + k))"
    using assms by (simp add: char_at_append_right char_at_append_left)
qed

text \<open>Lexing a run of digits that stands in front of the scan pointer.\<close>

lemma tokenize_loop_number_block:
  assumes "user_input st = a @ ds @ rest" and "ds \<noteq> []" and "\<forall>c\<in>set ds. isdigit c"
    and "\<not> isdigit (char_at rest 0)"
  shows "tokenize_loop st (length a) cur =
           tokenize_loop st (length a + length ds)
             (cur @ [\<lparr>kind = TK_NUM, val = word_of_int (min (decimal ds) LONG_MAX), str = length a\<rparr>])"
proof -
  from assms(1,2) have "char_at (user_input st) (length a) = hd ds"
    by (simp add: char_at_hd)
  with assms(2,3) have "isdigit (char_at (user_input st) (length a))"
    by simp
  moreover from assms have "digit_run (user_input st) (length a) = ds"
    by (simp add: digit_run_append)
  ultimately show ?thesis
    by (simp add: tokenize_loop_digit)
qed

text \<open>One turn of the loop of \<open>main\<close>, by the tokens under the cursor.\<close>

lemma main_loop_null: "token st = [] \<Longrightarrow> main_loop st = Fault"
  by (subst main_loop.simps) (simp add: at_eof_def)

lemma main_loop_eof: "token st = t # ts \<Longrightarrow> kind t = TK_EOF \<Longrightarrow> main_loop st = Return () st"
  by (subst main_loop.simps) (simp add: at_eof_def)

lemma main_loop_add:
  "token st = a # b # ts \<Longrightarrow> kind a = TK_RESERVED \<Longrightarrow>
   char_at (user_input st) (str a) = CHR ''+'' \<Longrightarrow> kind b = TK_NUM \<Longrightarrow>
     main_loop st =
       main_loop (printf (st\<lparr>token := ts\<rparr>) (''  add rax, '' @ printf_d (sint (val b)) @ [CHR 0x0A]))"
  by (subst main_loop.simps) (simp add: at_eof_def consume_def expect_number_def)

lemma main_loop_sub:
  "token st = a # b # ts \<Longrightarrow> kind a = TK_RESERVED \<Longrightarrow>
   char_at (user_input st) (str a) = CHR ''-'' \<Longrightarrow> kind b = TK_NUM \<Longrightarrow>
     main_loop st =
       main_loop (printf (st\<lparr>token := ts\<rparr>) (''  sub rax, '' @ printf_d (sint (val b)) @ [CHR 0x0A]))"
  by (subst main_loop.simps) (simp add: at_eof_def consume_def expect_def expect_number_def)

lemma main_loop_no_operator:
  "token st = t # ts \<Longrightarrow> kind t \<noteq> TK_EOF \<Longrightarrow>
   kind t \<noteq> TK_RESERVED \<or>
     (char_at (user_input st) (str t) \<noteq> CHR ''+'' \<and> char_at (user_input st) (str t) \<noteq> CHR ''-'') \<Longrightarrow>
     main_loop st = error_at st (str t) (msg_not_char CHR ''-'')"
  by (subst main_loop.simps) (auto simp: at_eof_def consume_def expect_def error_at_eq)

lemma main_loop_no_number:
  "token st = a # b # ts \<Longrightarrow> kind a = TK_RESERVED \<Longrightarrow>
   char_at (user_input st) (str a) = CHR ''+'' \<or> char_at (user_input st) (str a) = CHR ''-'' \<Longrightarrow>
   kind b \<noteq> TK_NUM \<Longrightarrow>
     main_loop st = error_at (st\<lparr>token := b # ts\<rparr>) (str b) msg_not_number"
  by (subst main_loop.simps) (auto simp: at_eof_def consume_def expect_def expect_number_def error_at_eq)

lemma main_loop_operator_last:
  "token st = [a] \<Longrightarrow> kind a = TK_RESERVED \<Longrightarrow>
   char_at (user_input st) (str a) = CHR ''+'' \<or> char_at (user_input st) (str a) = CHR ''-'' \<Longrightarrow>
     main_loop st = Fault"
  by (subst main_loop.simps) (auto simp: at_eof_def consume_def expect_def expect_number_def)

text \<open>\<open>main\<close> from the token list on, when the first token is a number.\<close>

lemma main_after_tokenize:
  assumes "tokenize \<lparr>token = [], user_input = s, stdout = [], stderr = []\<rparr> = Return (n # ts) st1"
    and "kind n = TK_NUM"
  shows "main [prog, s] =
           (case main_loop \<lparr>token = ts, user_input = s,
                             stdout = prologue @ asm_line (Mov_rax (val n)), stderr = []\<rparr> of
              Fault \<Rightarrow> Fault
            | Exit c st' \<Rightarrow> Exit c st'
            | Return u st \<Rightarrow> Return 0 (printf st (asm_line Ret)))"
proof -
  from assms(1) have "st1 = \<lparr>token = [], user_input = s, stdout = [], stderr = []\<rparr>"
    unfolding tokenize_def by (auto dest: tokenize_loop_Return)
  with assms show ?thesis
    by (simp add: main_def Let_def printf_def prologue_def expect_number_def
        cong: outcome.case_cong)
qed







section \<open>Reading the listing back\<close>

text \<open>
  The listing determines the instructions: \<open>%d\<close> prints different numbers differently, and
  every line ends in the only line feed it holds.
\<close>

lemma digit_char_facts:
  assumes "d < 10"
  shows "isdigit (digit_char d)" and "digit_val (digit_char d) = int d"
    and "digit_char d \<noteq> CHR 0x0A" and "digit_char d \<noteq> CHR ''-''"
proof -
  from assms have "of_char (digit_char d) = 48 + d"
    by (simp add: digit_char_def)
  then show "isdigit (digit_char d)" and "digit_val (digit_char d) = int d"
    using assms by (simp_all add: isdigit_def digit_val_def)
  then show "digit_char d \<noteq> CHR 0x0A" and "digit_char d \<noteq> CHR ''-''"
    by (auto simp: isdigit_def)
qed

lemma show_nat_digits: "show_nat n \<noteq> [] \<and> (\<forall>c\<in>set (show_nat n). isdigit c)"
proof (induction n rule: show_nat.induct)
  case (1 n)
  show ?case
  proof (cases "n < 10")
    case True
    then show ?thesis
      by (subst (1 2) show_nat.simps) (simp add: digit_char_facts)
  next
    case False
    with 1 have "\<forall>c\<in>set (show_nat (n div 10)). isdigit c" by simp
    moreover have "isdigit (digit_char (n mod 10))"
      by (rule digit_char_facts) simp
    ultimately show ?thesis
      using False by (subst (1 2) show_nat.simps) auto
  qed
qed

lemma decimal_show_nat: "decimal (show_nat n) = int n"
proof (induction n rule: show_nat.induct)
  case (1 n)
  show ?case
  proof (cases "n < 10")
    case True
    then show ?thesis
      by (subst show_nat.simps) (simp add: decimal_def digit_char_facts)
  next
    case False
    with 1 have "decimal (show_nat (n div 10)) = int (n div 10)" by simp
    moreover have "digit_val (digit_char (n mod 10)) = int (n mod 10)"
      by (rule digit_char_facts) simp
    ultimately have "decimal (show_nat (n div 10) @ [digit_char (n mod 10)]) = int n"
      by (simp add: decimal_snoc zdiv_int zmod_int)
    with False show ?thesis
      by (subst show_nat.simps) simp
  qed
qed

lemma printf_d_inj: "printf_d i = printf_d j \<Longrightarrow> i = j"
proof -
  assume eq: "printf_d i = printf_d j"
  have hd_digit: "isdigit (hd (show_nat n))" for n
    using show_nat_digits [of n] by (cases "show_nat n") simp_all
  have no_minus: "hd (show_nat n) \<noteq> CHR ''-''" for n
    using hd_digit [of n] by (auto simp: isdigit_def)
  show "i = j"
  proof (cases "i < 0")
    case i: True
    show ?thesis
    proof (cases "j < 0")
      case True
      with i eq have "show_nat (nat (- i)) = show_nat (nat (- j))"
        by (simp add: printf_d_def)
      then have "int (nat (- i)) = int (nat (- j))"
        using decimal_show_nat [of "nat (- i)"] decimal_show_nat [of "nat (- j)"] by simp
      with i True show ?thesis by simp
    next
      case False
      with i eq have "CHR ''-'' # show_nat (nat (- i)) = show_nat (nat j)"
        by (simp add: printf_d_def)
      then have "hd (show_nat (nat j)) = CHR ''-''"
        by (metis list.sel(1))
      with no_minus show ?thesis by simp
    qed
  next
    case i: False
    show ?thesis
    proof (cases "j < 0")
      case True
      with i eq have "show_nat (nat i) = CHR ''-'' # show_nat (nat (- j))"
        by (simp add: printf_d_def)
      then have "hd (show_nat (nat i)) = CHR ''-''"
        by simp
      with no_minus show ?thesis by simp
    next
      case False
      with i eq have "show_nat (nat i) = show_nat (nat j)"
        by (simp add: printf_d_def)
      then have "int (nat i) = int (nat j)"
        using decimal_show_nat [of "nat i"] decimal_show_nat [of "nat j"] by simp
      with i False show ?thesis by simp
    qed
  qed
qed

lemma printf_d_no_newline: "CHR 0x0A \<notin> set (printf_d i)"
proof -
  have "CHR 0x0A \<notin> set (show_nat n)" for n
    using show_nat_digits [of n] by (auto simp: isdigit_def)
  then show ?thesis
    by (simp add: printf_d_def)
qed

lemma asm_line_inj: "asm_line x = asm_line y \<Longrightarrow> x = y"
proof -
  assume eq: "asm_line x = asm_line y"
  have imm: "printf_d (sint a) = printf_d (sint b) \<Longrightarrow> a = b" for a b :: "32 word"
    by (auto dest!: printf_d_inj intro: signed_word_eqI)
  from eq show "x = y"
    by (cases x; cases y) (auto dest: imm)
qed

lemma asm_line_newline:
  "\<exists>body. asm_line x = body @ [CHR 0x0A] \<and> CHR 0x0A \<notin> set body"
proof (cases x)
  case (Mov_rax i)
  then show ?thesis
    by (intro exI [of _ "''  mov rax, '' @ printf_d (sint i)"]) (simp add: printf_d_no_newline)
next
  case (Add_rax i)
  then show ?thesis
    by (intro exI [of _ "''  add rax, '' @ printf_d (sint i)"]) (simp add: printf_d_no_newline)
next
  case (Sub_rax i)
  then show ?thesis
    by (intro exI [of _ "''  sub rax, '' @ printf_d (sint i)"]) (simp add: printf_d_no_newline)
next
  case Ret
  then show ?thesis
    by (intro exI [of _ "''  ret''"]) simp
qed

lemma first_line_eq:
  assumes "a @ [c] @ r = b @ [c] @ r'" and "c \<notin> set a" and "c \<notin> set b"
  shows "a = b \<and> r = r'"
  using assms
proof (induction a arbitrary: b)
  case Nil
  then show ?case by (cases b) auto
next
  case (Cons x a)
  then show ?case by (cases b) auto
qed

lemma asm_lines_inj:
  "concat (map asm_line xs) = concat (map asm_line ys) \<Longrightarrow> xs = ys"
proof (induction xs arbitrary: ys)
  case Nil
  show ?case
  proof (cases ys)
    case Nil
    then show ?thesis by simp
  next
    case (Cons y ys')
    from asm_line_newline [of y] obtain body where "asm_line y = body @ [CHR 0x0A]" by blast
    with Nil Cons show ?thesis by simp
  qed
next
  case (Cons x xs)
  from asm_line_newline [of x] obtain bx
    where bx: "asm_line x = bx @ [CHR 0x0A]" "CHR 0x0A \<notin> set bx" by blast
  show ?case
  proof (cases ys)
    case Nil
    with Cons.prems bx show ?thesis by simp
  next
    case (Cons y ys')
    from asm_line_newline [of y] obtain b
      where b: "asm_line y = b @ [CHR 0x0A]" "CHR 0x0A \<notin> set b" by blast
    from Cons.prems Cons bx(1) b(1)
    have "bx @ [CHR 0x0A] @ concat (map asm_line xs) = b @ [CHR 0x0A] @ concat (map asm_line ys')"
      by simp
    from first_line_eq [OF this bx(2) b(2)]
    have "bx = b \<and> concat (map asm_line xs) = concat (map asm_line ys')" .
    with bx(1) b(1) Cons.IH [of ys'] have "asm_line x = asm_line y" "xs = ys'"
      by simp_all
    with Cons show ?thesis
      by (simp add: asm_line_inj)
  qed
qed

lemma asm_text_inj: "asm_text p = asm_text q \<Longrightarrow> p = q"
  by (simp add: asm_text_def asm_lines_inj)

section \<open>Compiling an expression\<close>

lemma items_not_digit_first:
  assumes "\<forall>it\<in>set items. item_ok it" and "blank wN"
  shows "\<not> isdigit (char_at (concat (map item_text items) @ wN) 0)"
proof (cases items)
  case Nil
  with assms(2) show ?thesis
    using isspace_facts [of "hd wN"] by (cases wN) (simp_all add: char_at_def blank_def isdigit_def)
next
  case (Cons it rest)
  obtain w1 op w2 ds where it: "it = (w1, op, w2, ds)" by (cases it)
  with assms(1) Cons have ok: "blank w1" "op = CHR ''+'' \<or> op = CHR ''-''" by simp_all
  show ?thesis
  proof (cases w1)
    case Nil
    with ok(2) Cons it show ?thesis by (auto simp: char_at_def isdigit_def)
  next
    case (Cons c cs)
    with ok(1) have "isspace c" by (simp add: blank_def)
    with Cons \<open>items = it # rest\<close> it show ?thesis
      using isspace_facts [of c] by (simp add: char_at_def)
  qed
qed

lemma literal_min: "literal ds \<Longrightarrow> min (decimal ds) LONG_MAX = decimal ds"
  by (simp add: literal_def LONG_MAX_def)

lemma tokenize_items:
  assumes "user_input st = a @ concat (map item_text items) @ wN"
    and "\<forall>it\<in>set items. item_ok it" and "blank wN"
  shows "tokenize_loop st (length a) cur =
           Return (cur @ item_toks (length a) items @
                   [\<lparr>kind = TK_EOF, val = 0, str = length (user_input st)\<rparr>]) st"
  using assms
proof (induction items arbitrary: a cur)
  case Nil
  then have s: "user_input st = a @ wN @ []" and "\<forall>c\<in>set wN. isspace c"
    by (simp_all add: blank_def)
  then have "tokenize_loop st (length a) cur = tokenize_loop st (length a + length wN) cur"
    by (rule tokenize_loop_skip_block)
  moreover from s have "char_at (user_input st) (length a + length wN) = CHR 0x00"
    by (simp add: char_at_def)
  ultimately show ?case
    using s by (simp add: tokenize_loop_end)
next
  case (Cons it items)
  obtain w1 op w2 ds where it: "it = (w1, op, w2, ds)" by (cases it)
  let ?rest = "concat (map item_text items) @ wN"
  let ?p1 = "length a + length w1"
  let ?p2 = "?p1 + 1 + length w2"
  let ?p3 = "?p2 + length ds"
  let ?op = "\<lparr>kind = TK_RESERVED, val = 0, str = ?p1\<rparr>"
  let ?num = "\<lparr>kind = TK_NUM, val = word_of_int (decimal ds), str = ?p2\<rparr>"
  from Cons.prems(2) it have ok: "blank w1" "op = CHR ''+'' \<or> op = CHR ''-''" "blank w2" "literal ds"
    and oks: "\<forall>it\<in>set items. item_ok it"
    by simp_all
  from Cons.prems(1) it have s: "user_input st = a @ w1 @ [op] @ w2 @ ds @ ?rest"
    by simp
  have step1: "tokenize_loop st (length a) cur = tokenize_loop st ?p1 cur"
    using s ok(1) tokenize_loop_skip_block [of st a w1 "[op] @ w2 @ ds @ ?rest" cur]
    by (simp add: blank_def)
  have "char_at (user_input st) (length (a @ w1)) = hd [op]"
    unfolding s using char_at_hd [of "[op]" "a @ w1" "w2 @ ds @ ?rest"] by simp
  with ok(2) have "char_at (user_input st) ?p1 = CHR ''+'' \<or> char_at (user_input st) ?p1 = CHR ''-''"
    by simp
  then have step2: "tokenize_loop st ?p1 cur = tokenize_loop st (Suc ?p1) (cur @ [?op])"
    by (rule tokenize_loop_op)
  have step3: "tokenize_loop st (Suc ?p1) (cur @ [?op]) = tokenize_loop st ?p2 (cur @ [?op])"
    using s ok(3) tokenize_loop_skip_block [of st "a @ w1 @ [op]" w2 "ds @ ?rest" "cur @ [?op]"]
    by (simp add: blank_def add.assoc)
  have "\<not> isdigit (char_at ?rest 0)"
    using oks Cons.prems(3) by (rule items_not_digit_first)
  then have step4: "tokenize_loop st ?p2 (cur @ [?op]) = tokenize_loop st ?p3 (cur @ [?op, ?num])"
    using s ok(4) tokenize_loop_number_block [of st "a @ w1 @ [op] @ w2" ds ?rest "cur @ [?op]"]
    by (simp add: literal_def literal_min add.assoc)
  have "tokenize_loop st (length (a @ w1 @ [op] @ w2 @ ds)) (cur @ [?op, ?num]) =
          Return ((cur @ [?op, ?num]) @ item_toks (length (a @ w1 @ [op] @ w2 @ ds)) items @
                  [\<lparr>kind = TK_EOF, val = 0, str = length (user_input st)\<rparr>]) st"
    using s oks Cons.prems(3) by (intro Cons.IH) simp_all
  then have step5: "tokenize_loop st ?p3 (cur @ [?op, ?num]) =
          Return (cur @ item_toks (length a) (it # items) @
                  [\<lparr>kind = TK_EOF, val = 0, str = length (user_input st)\<rparr>]) st"
    by (simp add: it add.assoc)
  from step1 step2 step3 step4 step5 show ?case by simp
qed

lemma main_loop_items:
  assumes "user_input st = a @ concat (map item_text items) @ wN"
    and "\<forall>it\<in>set items. item_ok it"
    and "token st = item_toks (length a) items @ [eof]" and "kind eof = TK_EOF"
  shows "main_loop st =
           Return () (st\<lparr>token := [eof],
                         stdout := stdout st @ concat (map asm_line (map item_instr items))\<rparr>)"
  using assms
proof (induction items arbitrary: a st)
  case Nil
  then show ?case by (simp add: main_loop_eof)
next
  case (Cons it items)
  obtain w1 op w2 ds where it: "it = (w1, op, w2, ds)" by (cases it)
  let ?rest = "concat (map item_text items) @ wN"
  let ?a' = "a @ w1 @ [op] @ w2 @ ds"
  let ?op = "\<lparr>kind = TK_RESERVED, val = 0, str = length a + length w1\<rparr>"
  let ?num = "\<lparr>kind = TK_NUM, val = word_of_int (decimal ds), str = length a + length w1 + 1 + length w2\<rparr>"
  let ?ts = "item_toks (length ?a') items @ [eof]"
  let ?st' = "printf (st\<lparr>token := ?ts\<rparr>) (asm_line (item_instr it))"
  from Cons.prems(2) it have ok: "op = CHR ''+'' \<or> op = CHR ''-''"
    and oks: "\<forall>it\<in>set items. item_ok it"
    by simp_all
  from Cons.prems(1) it have s: "user_input st = a @ w1 @ [op] @ w2 @ ds @ ?rest"
    by simp
  have "char_at (user_input st) (length (a @ w1)) = hd [op]"
    unfolding s using char_at_hd [of "[op]" "a @ w1" "w2 @ ds @ ?rest"] by simp
  then have c: "char_at (user_input st) (str ?op) = op"
    by simp
  from Cons.prems(3) it have tok: "token st = ?op # ?num # ?ts"
    by (simp add: add.assoc)
  have step: "main_loop st = main_loop ?st'"
  proof (cases "op = CHR ''+''")
    case True
    with c tok it show ?thesis
      using main_loop_add [of st ?op ?num ?ts] by simp
  next
    case False
    with ok have "op = CHR ''-''" by simp
    with c tok it show ?thesis
      using main_loop_sub [of st ?op ?num ?ts] by simp
  qed
  have "main_loop ?st' =
          Return () (?st'\<lparr>token := [eof],
                          stdout := stdout ?st' @ concat (map asm_line (map item_instr items))\<rparr>)"
  proof (rule Cons.IH [of ?st' ?a'])
    show "user_input ?st' = ?a' @ ?rest"
      using s by (simp add: printf_def)
    show "\<forall>it\<in>set items. item_ok it" by (rule oks)
    show "token ?st' = item_toks (length ?a') items @ [eof]"
      by (simp add: printf_def)
    show "kind eof = TK_EOF" by (rule Cons.prems(4))
  qed
  with step show ?case
    by (simp add: printf_def)
qed

lemma scast_literal:
  assumes "literal ds"
  shows "(scast (word_of_int (decimal ds) :: 32 word) :: 64 word) = word_of_int (decimal ds)"
proof -
  from assms have "0 \<le> decimal ds" "decimal ds < 2 ^ 31"
    by (simp_all add: literal_def decimal_nonneg)
  then have "sint (word_of_int (decimal ds) :: 32 word) = decimal ds"
    by (intro sint_word_of_int_32) simp_all
  then show ?thesis
    by (simp add: scast_eq)
qed

lemma exec_items:
  "\<forall>it\<in>set items. item_ok it \<Longrightarrow>
     exec (map item_instr items @ [Ret]) (word_of_int acc) = Some (word_of_int (evaluate acc items))"
proof (induction items arbitrary: acc)
  case Nil
  then show ?case by simp
next
  case (Cons it items)
  obtain w1 op w2 ds where it: "it = (w1, op, w2, ds)" by (cases it)
  with Cons.prems have "literal ds" by simp
  then have sc: "(scast (word_of_int (decimal ds) :: 32 word) :: 64 word) = word_of_int (decimal ds)"
    by (rule scast_literal)
  from Cons.prems have "\<forall>it\<in>set items. item_ok it" by simp
  then have IH: "\<And>acc. exec (map item_instr items @ [Ret]) (word_of_int acc) =
      Some (word_of_int (evaluate acc items))"
    by (rule Cons.IH)
  show ?case
  proof (cases "op = CHR ''+''")
    case True
    with it sc IH [of "acc + decimal ds"] show ?thesis by simp
  next
    case False
    with it sc IH [of "acc - decimal ds"] show ?thesis by simp
  qed
qed

lemma evaluate_bound:
  "\<forall>it\<in>set items. item_ok it \<Longrightarrow>
     \<bar>evaluate acc items\<bar> \<le> \<bar>acc\<bar> + int (length items) * 2 ^ 31"
proof (induction items arbitrary: acc)
  case Nil
  then show ?case by simp
next
  case (Cons it items)
  obtain w1 op w2 ds where it: "it = (w1, op, w2, ds)" by (cases it)
  with Cons.prems have "literal ds" by simp
  then have d: "0 \<le> decimal ds" "decimal ds < 2 ^ 31"
    by (simp_all add: literal_def decimal_nonneg)
  from Cons.prems have oks: "\<forall>it\<in>set items. item_ok it" by simp
  let ?acc' = "if op = CHR ''+'' then acc + decimal ds else acc - decimal ds"
  from d have "\<bar>?acc'\<bar> \<le> \<bar>acc\<bar> + 2 ^ 31" by auto
  moreover have "\<bar>evaluate ?acc' items\<bar> \<le> \<bar>?acc'\<bar> + int (length items) * 2 ^ 31"
    using oks by (rule Cons.IH)
  ultimately have "\<bar>evaluate ?acc' items\<bar> \<le> \<bar>acc\<bar> + 2 ^ 31 + int (length items) * 2 ^ 31"
    by linarith
  with it show ?case
    by (simp add: algebra_simps)
qed

lemma sint_word_of_int_64:
  "- (2 ^ 63) \<le> x \<Longrightarrow> x < 2 ^ 63 \<Longrightarrow> sint (word_of_int x :: 64 word) = x"
  by (simp add: sint_sbintrunc' signed_take_bit_int_eq_self)

lemma tokenize_expr:
  assumes "blank w0" and "literal d0" and "\<forall>it\<in>set items. item_ok it" and "blank wN"
  shows "tokenize \<lparr>token = [], user_input = expr_text w0 d0 items wN, stdout = [], stderr = []\<rparr> =
           Return (\<lparr>kind = TK_NUM, val = word_of_int (decimal d0), str = length w0\<rparr> #
                   item_toks (length (w0 @ d0)) items @
                   [\<lparr>kind = TK_EOF, val = 0, str = length (expr_text w0 d0 items wN)\<rparr>])
             \<lparr>token = [], user_input = expr_text w0 d0 items wN, stdout = [], stderr = []\<rparr>"
proof -
  let ?rest = "concat (map item_text items) @ wN"
  let ?s = "expr_text w0 d0 items wN"
  let ?st = "\<lparr>token = [], user_input = ?s, stdout = [], stderr = []\<rparr>"
  let ?n0 = "\<lparr>kind = TK_NUM, val = word_of_int (decimal d0), str = length w0\<rparr>"
  have s: "user_input ?st = [] @ w0 @ d0 @ ?rest"
    by (simp add: expr_text_def)
  have step1: "tokenize_loop ?st 0 [] = tokenize_loop ?st (length w0) []"
    using assms(1) tokenize_loop_skip_block [OF s, of "[]"] by (simp add: blank_def)
  have s2: "user_input ?st = w0 @ d0 @ ?rest"
    by (simp add: expr_text_def)
  have "\<not> isdigit (char_at ?rest 0)"
    using assms(3,4) by (rule items_not_digit_first)
  then have step2: "tokenize_loop ?st (length w0) [] = tokenize_loop ?st (length w0 + length d0) [?n0]"
    using assms(2) tokenize_loop_number_block [OF s2, of "[]"]
    by (simp add: literal_def literal_min)
  have s3: "user_input ?st = (w0 @ d0) @ ?rest"
    by (simp add: expr_text_def)
  have step3: "tokenize_loop ?st (length (w0 @ d0)) [?n0] =
      Return ([?n0] @ item_toks (length (w0 @ d0)) items @
              [\<lparr>kind = TK_EOF, val = 0, str = length (user_input ?st)\<rparr>]) ?st"
    using s3 assms(3,4) by (rule tokenize_items)
  from step1 step2 step3 show ?thesis
    by (simp add: tokenize_def)
qed

text \<open>
  Claim C1.  For every input made of literals within the range of \<open>int\<close> chained by \<open>+\<close>
  and \<open>-\<close>, with any white space around them, \<open>main\<close> returns 0 with nothing on the
  error stream, standard output is the listing of the expected instructions, and running
  them, or any instructions with that listing, leaves in \<open>rax\<close> the value of the
  expression taken from left to right (as a 64-bit word; read as a signed number it is that
  value itself whenever there are fewer than \<open>2^32\<close> operators).
\<close>

theorem main_compiles_expression:
  assumes "blank w0" and "literal d0" and "\<forall>it\<in>set items. item_ok it" and "blank wN"
  shows "\<exists>st'. main [prog, expr_text w0 d0 items wN] = Return 0 st' \<and>
           stdout st' = asm_text (expr_code d0 items) \<and> stderr st' = [] \<and>
           exec (expr_code d0 items) rax = Some (word_of_int (evaluate (decimal d0) items)) \<and>
           (\<forall>code. stdout st' = asm_text code \<longrightarrow>
              exec code rax = Some (word_of_int (evaluate (decimal d0) items))) \<and>
           (length items < 2 ^ 32 \<longrightarrow>
              sint (word_of_int (evaluate (decimal d0) items) :: 64 word) =
                evaluate (decimal d0) items)"
proof -
  let ?s = "expr_text w0 d0 items wN"
  let ?n0 = "\<lparr>kind = TK_NUM, val = word_of_int (decimal d0), str = length w0\<rparr>"
  let ?eof = "\<lparr>kind = TK_EOF, val = 0, str = length ?s\<rparr>"
  let ?st1 = "\<lparr>token = item_toks (length (w0 @ d0)) items @ [?eof], user_input = ?s,
               stdout = prologue @ asm_line (Mov_rax (val ?n0)), stderr = []\<rparr>"
  let ?st2 = "?st1\<lparr>token := [?eof],
                    stdout := stdout ?st1 @ concat (map asm_line (map item_instr items))\<rparr>"
  have "main [prog, ?s] =
          (case main_loop ?st1 of
             Fault \<Rightarrow> Fault
           | Exit c st' \<Rightarrow> Exit c st'
           | Return u st \<Rightarrow> Return 0 (printf st (asm_line Ret)))"
    by (rule main_after_tokenize [OF tokenize_expr [OF assms]]) simp
  moreover have "main_loop ?st1 = Return () ?st2"
  proof (rule main_loop_items)
    show "user_input ?st1 = (w0 @ d0) @ concat (map item_text items) @ wN"
      by (simp add: expr_text_def)
    show "\<forall>it\<in>set items. item_ok it" by (rule assms(3))
    show "token ?st1 = item_toks (length (w0 @ d0)) items @ [?eof]" by simp
    show "kind ?eof = TK_EOF" by simp
  qed
  ultimately have run: "main [prog, ?s] = Return 0 (printf ?st2 (asm_line Ret))"
    by (simp only: outcome.case)
  have out: "stdout (printf ?st2 (asm_line Ret)) = asm_text (expr_code d0 items)"
    by (simp add: printf_def asm_text_def expr_code_def)
  have err: "stderr (printf ?st2 (asm_line Ret)) = []"
    by (simp add: printf_def)
  have "exec (expr_code d0 items) rax = exec (map item_instr items @ [Ret]) (word_of_int (decimal d0))"
    using scast_literal [OF assms(2)] by (simp add: expr_code_def)
  then have ex: "exec (expr_code d0 items) rax = Some (word_of_int (evaluate (decimal d0) items))"
    using exec_items [OF assms(3)] by simp
  have signed: "sint (word_of_int (evaluate (decimal d0) items) :: 64 word) = evaluate (decimal d0) items"
    if n: "length items < 2 ^ 32"
  proof -
    from assms(2) have d: "0 \<le> decimal d0" "decimal d0 < 2 ^ 31"
      by (simp_all add: literal_def decimal_nonneg)
    from n have "int (length items) \<le> 2 ^ 32 - 1"
      by (simp add: of_nat_less_numeral_power_cancel_iff [symmetric] del: of_nat_less_numeral_power_cancel_iff)
    then have "int (length items) * 2 ^ 31 \<le> (2 ^ 32 - 1) * 2 ^ 31"
      by (intro mult_right_mono) simp_all
    with d evaluate_bound [OF assms(3), of "decimal d0"]
    have "\<bar>evaluate (decimal d0) items\<bar> < 2 ^ 63"
      by simp
    then show ?thesis
      by (intro sint_word_of_int_64) simp_all
  qed
  have any: "\<forall>code. stdout (printf ?st2 (asm_line Ret)) = asm_text code \<longrightarrow>
      exec code rax = Some (word_of_int (evaluate (decimal d0) items))"
    unfolding out using ex by (auto dest: asm_text_inj)
  from run out err ex any signed show ?thesis
    by blast
qed

theorem main_compiles_expression_witness:
  "(\<exists>st'. main [''9cc'', ''1 + 2 - 3''] = Return 0 st' \<and>
          stdout st' = asm_text [Mov_rax 1, Add_rax 2, Sub_rax 3, Ret] \<and> stderr st' = []) \<and>
   exec [Mov_rax 1, Add_rax 2, Sub_rax 3, Ret] 0 = Some 0 \<and>
   (\<exists>st'. main [''9cc'', ''5 - 20''] = Return 0 st' \<and>
          stdout st' = asm_text [Mov_rax 5, Sub_rax 20, Ret] \<and> stderr st' = []) \<and>
   exec [Mov_rax 5, Sub_rax 20, Ret] 0 = Some (- 15) \<and>
   sint (- 15 :: 64 word) = - 15"
proof -
  have d: "decimal ''1'' = 1" "decimal ''2'' = 2" "decimal ''3'' = 3" "decimal ''5'' = 5"
    "decimal ''20'' = 20"
    by (simp_all add: decimal_def digit_val_def)
  have l: "literal ''1''" "literal ''2''" "literal ''3''" "literal ''5''" "literal ''20''"
    by (simp_all add: literal_def d isdigit_def)
  have b: "blank []" "blank '' ''"
    by (simp_all add: blank_def isspace_def)
  have t1: "expr_text [] ''1'' [('' '', CHR ''+'', '' '', ''2''), ('' '', CHR ''-'', '' '', ''3'')] []
              = ''1 + 2 - 3''"
    and t2: "expr_text [] ''5'' [('' '', CHR ''-'', '' '', ''20'')] [] = ''5 - 20''"
    by (simp_all add: expr_text_def)
  have c1: "expr_code ''1'' [('' '', CHR ''+'', '' '', ''2''), ('' '', CHR ''-'', '' '', ''3'')]
              = [Mov_rax 1, Add_rax 2, Sub_rax 3, Ret]"
    and c2: "expr_code ''5'' [('' '', CHR ''-'', '' '', ''20'')] = [Mov_rax 5, Sub_rax 20, Ret]"
    by (simp_all add: expr_code_def d)
  from main_compiles_expression
    [of "[]" "''1''" "[('' '', CHR ''+'', '' '', ''2''), ('' '', CHR ''-'', '' '', ''3'')]" "[]" "''9cc''" 0]
  have one: "(\<exists>st'. main [''9cc'', ''1 + 2 - 3''] = Return 0 st' \<and>
          stdout st' = asm_text [Mov_rax 1, Add_rax 2, Sub_rax 3, Ret] \<and> stderr st' = []) \<and>
      exec [Mov_rax 1, Add_rax 2, Sub_rax 3, Ret] 0 = Some 0"
    unfolding t1 c1 using l b by (auto simp: d)
  from main_compiles_expression [of "[]" "''5''" "[('' '', CHR ''-'', '' '', ''20'')]" "[]" "''9cc''" 0]
  have two: "(\<exists>st'. main [''9cc'', ''5 - 20''] = Return 0 st' \<and>
          stdout st' = asm_text [Mov_rax 5, Sub_rax 20, Ret] \<and> stderr st' = []) \<and>
      exec [Mov_rax 5, Sub_rax 20, Ret] 0 = Some (- 15) \<and> sint (- 15 :: 64 word) = - 15"
    unfolding t2 c2 using l b by (auto simp: d)
  from one two show ?thesis by blast
qed

section \<open>The shape of the output\<close>

lemma main_loop_Return:
  "main_loop st = Return u st' \<Longrightarrow>
     \<exists>pairs eof rest.
       token st = pair_tokens pairs @ eof # rest \<and> kind eof = TK_EOF \<and>
       list_all (op_pair (user_input st)) pairs \<and>
       st' = st\<lparr>token := eof # rest,
                 stdout := stdout st @ concat (map asm_line (map (pair_instr (user_input st)) pairs))\<rparr>"
proof (induction "length (token st)" arbitrary: st rule: less_induct)
  case less
  let ?s = "user_input st"
  show ?case
  proof (cases "token st")
    case Nil
    with less.prems show ?thesis by (simp add: main_loop_null)
  next
    case (Cons t ts)
    show ?thesis
    proof (cases "kind t = TK_EOF")
      case True
      with Cons less.prems have "st' = st" by (simp add: main_loop_eof)
      with Cons True show ?thesis
        by (intro exI [of _ "[]"] exI [of _ t] exI [of _ ts]) (simp add: pair_tokens_def)
    next
      case notEof: False
      show ?thesis
      proof (cases "kind t = TK_RESERVED \<and> (char_at ?s (str t) = CHR ''+'' \<or> char_at ?s (str t) = CHR ''-'')")
        case False
        with Cons notEof have "main_loop st = error_at st (str t) (msg_not_char CHR ''-'')"
          by (intro main_loop_no_operator) auto
        with less.prems show ?thesis by (simp add: error_at_eq)
      next
        case isOp: True
        show ?thesis
        proof (cases ts)
          case Nil
          with Cons isOp have "main_loop st = Fault"
            by (intro main_loop_operator_last) auto
          with less.prems show ?thesis by simp
        next
          case (Cons b ts')
          with \<open>token st = t # ts\<close> have tok: "token st = t # b # ts'" by simp
          show ?thesis
          proof (cases "kind b = TK_NUM")
            case False
            with tok isOp have "main_loop st = error_at (st\<lparr>token := b # ts'\<rparr>) (str b) msg_not_number"
              by (intro main_loop_no_number) auto
            with less.prems show ?thesis by (simp add: error_at_eq)
          next
            case isNum: True
            let ?line = "asm_line (pair_instr ?s (t, b))"
            let ?st1 = "printf (st\<lparr>token := ts'\<rparr>) ?line"
            have step: "main_loop st = main_loop ?st1"
            proof (cases "char_at ?s (str t) = CHR ''+''")
              case True
              with tok isOp isNum show ?thesis
                using main_loop_add [of st t b ts'] by (simp add: pair_instr_def)
            next
              case False
              with isOp have "char_at ?s (str t) = CHR ''-''" by simp
              with tok isOp isNum False show ?thesis
                using main_loop_sub [of st t b ts'] by (simp add: pair_instr_def)
            qed
            have "length (token ?st1) < length (token st)"
              using tok by (simp add: printf_def)
            moreover from step less.prems have "main_loop ?st1 = Return u st'" by simp
            ultimately obtain pairs eof rest where
              IH: "token ?st1 = pair_tokens pairs @ eof # rest" "kind eof = TK_EOF"
                "list_all (op_pair (user_input ?st1)) pairs"
                "st' = ?st1\<lparr>token := eof # rest,
                   stdout := stdout ?st1 @ concat (map asm_line (map (pair_instr (user_input ?st1)) pairs))\<rparr>"
              using less.hyps [of ?st1] by blast
            have u: "user_input ?st1 = ?s" by (simp add: printf_def)
            from IH(1) tok have "token st = pair_tokens ((t, b) # pairs) @ eof # rest"
              by (simp add: printf_def pair_tokens_def)
            moreover from IH(3) isOp isNum have "list_all (op_pair ?s) ((t, b) # pairs)"
              unfolding u by (simp add: op_pair_def)
            moreover from IH(4) have "st' = st\<lparr>token := eof # rest,
                 stdout := stdout st @ concat (map asm_line (map (pair_instr ?s) ((t, b) # pairs)))\<rparr>"
              unfolding u by (simp add: printf_def)
            ultimately show ?thesis
              using IH(2) by blast
          qed
        qed
      qed
    qed
  qed
qed

lemma single_eof:
  assumes "xs @ e # rest = front @ [E]" and "\<forall>t\<in>set front. kind t \<noteq> TK_EOF" and "kind e = TK_EOF"
  shows "rest = [] \<and> e = E"
proof (cases rest rule: rev_cases)
  case Nil
  with assms(1) show ?thesis by simp
next
  case (snoc rest' l)
  with assms(1) have "(xs @ e # rest') @ [l] = front @ [E]" by simp
  then have "front = xs @ e # rest'" by (simp only: append1_eq_conv)
  with assms(2,3) show ?thesis by simp
qed

lemma length_pair_tokens: "length (pair_tokens pairs) = 2 * length pairs"
  by (induction pairs) (auto simp: pair_tokens_def)

lemma main_Return:
  assumes "main [prog, s] = Return r st'"
  shows "\<exists>n0 pairs eof.
           tokenize \<lparr>token = [], user_input = s, stdout = [], stderr = []\<rparr> =
             Return (n0 # pair_tokens pairs @ [eof])
               \<lparr>token = [], user_input = s, stdout = [], stderr = []\<rparr> \<and>
           kind n0 = TK_NUM \<and> kind eof = TK_EOF \<and> list_all (op_pair s) pairs \<and>
           r = 0 \<and>
           st' = \<lparr>token = [eof], user_input = s,
                   stdout = asm_text (Mov_rax (val n0) # map (pair_instr s) pairs @ [Ret]),
                   stderr = []\<rparr>"
proof -
  let ?st = "\<lparr>token = [], user_input = s, stdout = [], stderr = []\<rparr>"
  show ?thesis
  proof (cases "tokenize ?st")
    case Fault
    with assms show ?thesis by (simp add: main_def)
  next
    case (Exit c st1)
    with assms show ?thesis by (simp add: main_def)
  next
    case (Return toks st1)
    then have st1: "st1 = ?st"
      unfolding tokenize_def by (auto dest: tokenize_loop_Return)
    from Return scanned_Nil [of s] obtain front
      where toks: "toks = front @ [\<lparr>kind = TK_EOF, val = 0, str = strlen s\<rparr>]"
        and "scanned s (strlen s) front"
      unfolding tokenize_def using tokenize_loop_scanned [of ?st 0 "[]" toks st1] by auto
    then have front: "\<forall>t\<in>set front. kind t \<noteq> TK_EOF"
      by (simp add: scanned_def)
    from toks have "toks \<noteq> []" by simp
    then obtain n0 ts where cons: "toks = n0 # ts" by (cases toks) simp_all
    show ?thesis
    proof (cases "kind n0 = TK_NUM")
      case False
      with assms Return st1 cons show ?thesis
        by (simp add: main_def Let_def printf_def expect_number_def error_at_eq)
    next
      case True
      let ?st1 = "\<lparr>token = ts, user_input = s,
                   stdout = prologue @ asm_line (Mov_rax (val n0)), stderr = []\<rparr>"
      from Return cons have tok: "tokenize ?st = Return (n0 # ts) st1" by simp
      have m: "main [prog, s] =
          (case main_loop ?st1 of
             Fault \<Rightarrow> Fault
           | Exit c st' \<Rightarrow> Exit c st'
           | Return u st \<Rightarrow> Return 0 (printf st (asm_line Ret)))"
        by (rule main_after_tokenize [OF tok True])
      show ?thesis
      proof (cases "main_loop ?st1")
        case Fault
        with m assms show ?thesis by simp
      next
        case (Exit c st2)
        with m assms show ?thesis by simp
      next
        case (Return u st2)
        with m assms have r: "r = 0" and st': "st' = printf st2 (asm_line Ret)"
          by simp_all
        from Return obtain pairs eof rest where
          L: "token ?st1 = pair_tokens pairs @ eof # rest" "kind eof = TK_EOF"
            "list_all (op_pair (user_input ?st1)) pairs"
            "st2 = ?st1\<lparr>token := eof # rest,
               stdout := stdout ?st1 @ concat (map asm_line (map (pair_instr (user_input ?st1)) pairs))\<rparr>"
          using main_loop_Return [of ?st1 u st2] by blast
        from L(1) cons toks have "(n0 # pair_tokens pairs) @ eof # rest =
            front @ [\<lparr>kind = TK_EOF, val = 0, str = strlen s\<rparr>]"
          by simp
        with front L(2) have rest: "rest = []"
          using single_eof by blast
        with L(1) cons have "toks = n0 # pair_tokens pairs @ [eof]" by simp
        with \<open>tokenize ?st = Return toks st1\<close> st1
        have "tokenize ?st = Return (n0 # pair_tokens pairs @ [eof]) ?st" by simp
        moreover from L(3) have "list_all (op_pair s) pairs" by simp
        moreover from st' L(4) rest
        have "st' = \<lparr>token = [eof], user_input = s,
                   stdout = asm_text (Mov_rax (val n0) # map (pair_instr s) pairs @ [Ret]),
                   stderr = []\<rparr>"
          by (simp add: printf_def asm_text_def)
        ultimately show ?thesis
          using True L(2) r by blast
      qed
    qed
  qed
qed

text \<open>
  Claim C3, as amended.  Whenever \<open>main\<close> returns, it returns 0, the token list is a
  number, then pairs of an operator token and a number token, then the end marker, and
  standard output is exactly the prologue (the syntax directive, the \<open>.globl\<close> directive
  and the label), one \<open>mov\<close> line with the first number, one \<open>add\<close> or \<open>sub\<close> line for
  each pair in the order of the input (so one line for each two tokens consumed after the
  first number), and one \<open>ret\<close> line.  For the input \<open>42\<close> the listing is the \<open>mov\<close> line
  and the \<open>ret\<close> line, and running it gives 42.
\<close>

theorem main_output_shape:
  "(main [prog, s] = Return r st' \<longrightarrow>
      (\<exists>n0 pairs eof.
         tokenize \<lparr>token = [], user_input = s, stdout = [], stderr = []\<rparr> =
           Return (n0 # pair_tokens pairs @ [eof])
             \<lparr>token = [], user_input = s, stdout = [], stderr = []\<rparr> \<and>
         kind n0 = TK_NUM \<and> kind eof = TK_EOF \<and> list_all (op_pair s) pairs \<and>
         length (pair_tokens pairs) = 2 * length pairs \<and>
         r = 0 \<and> token st' = [eof] \<and> stderr st' = [] \<and>
         stdout st' = prologue @ asm_line (Mov_rax (val n0)) @
                      concat (map asm_line (map (pair_instr s) pairs)) @ asm_line Ret \<and>
         stdout st' = asm_text (Mov_rax (val n0) # map (pair_instr s) pairs @ [Ret]))) \<and>
   main [prog, ''42''] =
     Return 0 \<lparr>token = [\<lparr>kind = TK_EOF, val = 0, str = 2\<rparr>], user_input = ''42'',
               stdout = asm_text [Mov_rax 42, Ret], stderr = []\<rparr> \<and>
   exec [Mov_rax 42, Ret] rax = Some 42"
proof (intro conjI impI)
  assume "main [prog, s] = Return r st'"
  from main_Return [OF this] obtain n0 pairs eof where
    *: "tokenize \<lparr>token = [], user_input = s, stdout = [], stderr = []\<rparr> =
             Return (n0 # pair_tokens pairs @ [eof])
               \<lparr>token = [], user_input = s, stdout = [], stderr = []\<rparr>"
      "kind n0 = TK_NUM" "kind eof = TK_EOF" "list_all (op_pair s) pairs" "r = 0"
      "st' = \<lparr>token = [eof], user_input = s,
                   stdout = asm_text (Mov_rax (val n0) # map (pair_instr s) pairs @ [Ret]),
                   stderr = []\<rparr>"
    by blast
  from *(6) have "token st' = [eof]" "stderr st' = []"
    "stdout st' = asm_text (Mov_rax (val n0) # map (pair_instr s) pairs @ [Ret])"
    by simp_all
  moreover from this(3) have "stdout st' = prologue @ asm_line (Mov_rax (val n0)) @
                      concat (map asm_line (map (pair_instr s) pairs)) @ asm_line Ret"
    by (simp add: asm_text_def)
  ultimately show "\<exists>n0 pairs eof.
         tokenize \<lparr>token = [], user_input = s, stdout = [], stderr = []\<rparr> =
           Return (n0 # pair_tokens pairs @ [eof])
             \<lparr>token = [], user_input = s, stdout = [], stderr = []\<rparr> \<and>
         kind n0 = TK_NUM \<and> kind eof = TK_EOF \<and> list_all (op_pair s) pairs \<and>
         length (pair_tokens pairs) = 2 * length pairs \<and>
         r = 0 \<and> token st' = [eof] \<and> stderr st' = [] \<and>
         stdout st' = prologue @ asm_line (Mov_rax (val n0)) @
                      concat (map asm_line (map (pair_instr s) pairs)) @ asm_line Ret \<and>
         stdout st' = asm_text (Mov_rax (val n0) # map (pair_instr s) pairs @ [Ret])"
    using *(1-5) length_pair_tokens [of pairs] by blast
next
  have "main [[], ''42''] =
     Return 0 \<lparr>token = [\<lparr>kind = TK_EOF, val = 0, str = 2\<rparr>], user_input = ''42'',
               stdout = asm_text [Mov_rax 42, Ret], stderr = []\<rparr>"
    by code_simp
  then show "main [prog, ''42''] =
     Return 0 \<lparr>token = [\<lparr>kind = TK_EOF, val = 0, str = 2\<rparr>], user_input = ''42'',
               stdout = asm_text [Mov_rax 42, Ret], stderr = []\<rparr>"
    by (simp add: main_prog [of prog])
next
  show "exec [Mov_rax 42, Ret] rax = Some 42"
    by simp
qed

theorem main_output_shape_witness:
  "\<exists>n0 pairs eof.
     tokenize \<lparr>token = [], user_input = ''1 + 2'', stdout = [], stderr = []\<rparr> =
       Return (n0 # pair_tokens pairs @ [eof])
         \<lparr>token = [], user_input = ''1 + 2'', stdout = [], stderr = []\<rparr> \<and>
     kind n0 = TK_NUM \<and> kind eof = TK_EOF \<and> list_all (op_pair ''1 + 2'') pairs \<and>
     length (pair_tokens pairs) = 2 * length pairs \<and>
     asm_text [Mov_rax 1, Add_rax 2, Ret] =
       asm_text (Mov_rax (val n0) # map (pair_instr ''1 + 2'') pairs @ [Ret])"
proof -
  have run: "main [''9cc'', ''1 + 2''] =
      Return 0 \<lparr>token = [\<lparr>kind = TK_EOF, val = 0, str = 5\<rparr>], user_input = ''1 + 2'',
                stdout = asm_text [Mov_rax 1, Add_rax 2, Ret], stderr = []\<rparr>"
    by code_simp
  from main_output_shape [THEN conjunct1, rule_format, OF run]
  show ?thesis
    by (elim exE conjE) (intro exI conjI, assumption+, simp)
qed

text \<open>
  Claim C3 as stated counts one instruction line for each token consumed after the first
  number.  For the input \<open>1+2+3+4\<close> six tokens are consumed after the first number, and
  the listing has three \<open>add\<close> lines between the \<open>mov\<close> line and the \<open>ret\<close> line.
\<close>

theorem main_output_shape_counterexample:
  "main [''9cc'', ''1+2+3+4''] =
     Return 0 \<lparr>token = [\<lparr>kind = TK_EOF, val = 0, str = 7\<rparr>], user_input = ''1+2+3+4'',
               stdout = prologue @ asm_line (Mov_rax 1) @
                        concat (map asm_line [Add_rax 2, Add_rax 3, Add_rax 4]) @ asm_line Ret,
               stderr = []\<rparr> \<and>
   tokenize \<lparr>token = [], user_input = ''1+2+3+4'', stdout = [], stderr = []\<rparr> =
     Return (\<lparr>kind = TK_NUM, val = 1, str = 0\<rparr> #
             [\<lparr>kind = TK_RESERVED, val = 0, str = 1\<rparr>, \<lparr>kind = TK_NUM, val = 2, str = 2\<rparr>,
              \<lparr>kind = TK_RESERVED, val = 0, str = 3\<rparr>, \<lparr>kind = TK_NUM, val = 3, str = 4\<rparr>,
              \<lparr>kind = TK_RESERVED, val = 0, str = 5\<rparr>, \<lparr>kind = TK_NUM, val = 4, str = 6\<rparr>] @
             [\<lparr>kind = TK_EOF, val = 0, str = 7\<rparr>])
       \<lparr>token = [], user_input = ''1+2+3+4'', stdout = [], stderr = []\<rparr> \<and>
   length [\<lparr>kind = TK_RESERVED, val = 0, str = 1\<rparr>, \<lparr>kind = TK_NUM, val = 2, str = 2\<rparr>,
           \<lparr>kind = TK_RESERVED, val = 0, str = 3\<rparr>, \<lparr>kind = TK_NUM, val = 3, str = 4\<rparr>,
           \<lparr>kind = TK_RESERVED, val = 0, str = 5\<rparr>, \<lparr>kind = TK_NUM, val = 4, str = 6\<rparr>] = 6 \<and>
   length [Add_rax 2, Add_rax 3, Add_rax 4] = 3"
  by code_simp

end
